theory Spec2Isabelle
  imports Main "HOL-Library.Word" "HOL-Library.Sublist"
begin

unbundle bit_operations_syntax

section \<open>The redactor of \<^verbatim>\<open>bootstrap/redactor.go\<close>\<close>

text \<open>
  The Redactor is a stream filter: \<^verbatim>\<open>NewRedactor\<close> compiles a table of skip distances
  from the needles, \<^verbatim>\<open>Write\<close> scans one chunk with that table and pushes the bytes it
  has confirmed to the wrapped writer, \<^verbatim>\<open>Sync\<close> pushes what is retained.

  Conventions of the embedding.
  \<^item> A Go \<^verbatim>\<open>byte\<close> is an \<open>8 word\<close>; a \<^verbatim>\<open>[]byte\<close> and a \<^verbatim>\<open>string\<close> are lists of
    bytes (a Go string is a byte sequence; \<^verbatim>\<open>len\<close> counts bytes).
  \<^item> A Go \<^verbatim>\<open>int\<close> is an \<open>int\<close>: every value computed here is bounded by the length of
    a chunk plus the length of a needle, far from the 64-bit range.
  \<^item> A run-time panic is the value \<open>Inl e\<close> of a sum type. Index expressions and slice
    expressions check their bounds, as Go does.
  \<^item> The wrapped \<^verbatim>\<open>io.Writer\<close> is the list of the byte slices it has been handed, one
    element per call of its \<^verbatim>\<open>Write\<close>, oldest first. It is modelled as a writer that
    accepts every write (\<^verbatim>\<open>err == nil\<close>), so the results \<^verbatim>\<open>len(input), err\<close> of the
    Redactor's \<^verbatim>\<open>Write\<close> are left out. It is shared by reference, so it is threaded beside
    the Redactor rather than stored in it.
  \<^item> The caller's chunk does not alias the Redactor's buffer.
\<close>

subsection \<open>Bytes, panics, indexing and slicing\<close>

type_synonym byte = "8 word"

type_synonym sink = "byte list list"

datatype error = IndexOutOfRange | SliceOutOfRange

definition bindE :: "error + 'a \<Rightarrow> ('a \<Rightarrow> error + 'b) \<Rightarrow> error + 'b" where
  "bindE m f = (case m of Inl e \<Rightarrow> Inl e | Inr x \<Rightarrow> f x)"

text \<open>\<^verbatim>\<open>xs[i]\<close>: panics unless \<^verbatim>\<open>0 <= i < len(xs)\<close>.\<close>

definition index :: "'a list \<Rightarrow> int \<Rightarrow> error + 'a" where
  "index xs i = (if 0 \<le> i \<and> i < int (length xs) then Inr (xs ! nat i) else Inl IndexOutOfRange)"

text \<open>
  \<^verbatim>\<open>xs[lo:hi]\<close>: panics unless \<^verbatim>\<open>0 <= lo <= hi <= cap(xs)\<close>. The model checks against
  \<^verbatim>\<open>len(xs)\<close>; no slice expression of the source has an upper bound between the length
  and the capacity.
\<close>

definition sliceOf :: "'a list \<Rightarrow> int \<Rightarrow> int \<Rightarrow> error + 'a list" where
  "sliceOf xs lo hi =
     (if 0 \<le> lo \<and> lo \<le> hi \<and> hi \<le> int (length xs)
      then Inr (take (nat (hi - lo)) (drop (nat lo) xs))
      else Inl SliceOutOfRange)"

text \<open>A string literal as bytes.\<close>

definition bytes :: "string \<Rightarrow> byte list" where
  "bytes s = map of_char s"

subsection \<open>\<^verbatim>\<open>for i, ch := range needle\<close> over a string\<close>

text \<open>
  Go iterates over the code points of a string: the index is the byte index at which the
  code point starts, the value is the code point decoded from UTF-8, and an invalid
  sequence yields \<^verbatim>\<open>0xFFFD\<close> and advances one byte. \<open>decodeRune\<close> returns the code
  point and its width for a non-empty byte sequence.
\<close>

definition RuneError :: int where
  "RuneError = 0xFFFD"

definition cont :: "byte \<Rightarrow> int" where
  "cont b = uint (b AND 0x3F)"

definition decodeRune :: "byte list \<Rightarrow> int \<times> nat" where
  "decodeRune s =
     (let s0 = s ! 0; n = length s in
      if s0 < 0x80 then (uint s0, 1)
      else if s0 < 0xC2 \<or> 0xF4 < s0 then (RuneError, 1)
      else
        let sz = (if s0 < 0xE0 then 2 else if s0 < 0xF0 then 3 else (4::nat));
            lo = (if s0 = 0xE0 then 0xA0 else if s0 = 0xF0 then 0x90 else (0x80::byte));
            hi = (if s0 = 0xED then 0x9F else if s0 = 0xF4 then 0x8F else (0xBF::byte))
        in
        if n < sz then (RuneError, 1)
        else if s ! 1 < lo \<or> hi < s ! 1 then (RuneError, 1)
        else if sz \<le> 2 then (uint (s0 AND 0x1F) * 64 + cont (s ! 1), 2)
        else if s ! 2 < 0x80 \<or> 0xBF < s ! 2 then (RuneError, 1)
        else if sz \<le> 3 then (uint (s0 AND 0x0F) * 4096 + cont (s ! 1) * 64 + cont (s ! 2), 3)
        else if s ! 3 < 0x80 \<or> 0xBF < s ! 3 then (RuneError, 1)
        else (uint (s0 AND 0x07) * 262144 + cont (s ! 1) * 4096 + cont (s ! 2) * 64
                + cont (s ! 3), 4))"

function rangeString :: "int \<Rightarrow> byte list \<Rightarrow> (int \<times> int) list" where
  "rangeString i [] = []"
| "rangeString i (b # bs) =
     (i, fst (decodeRune (b # bs)))
       # rangeString (i + int (snd (decodeRune (b # bs)))) (drop (snd (decodeRune (b # bs)) - 1) bs)"
  by pat_completeness auto
termination
  by (relation "measure (\<lambda>(i, bs). length bs)") auto

subsection \<open>The Redactor\<close>

text \<open>One element of the array \<^verbatim>\<open>table [255]struct { skip int; needles [][]byte }\<close>.\<close>

record tableEntry =
  skip :: int
  needles :: "byte list list"

text \<open>
  The struct, without the \<^verbatim>\<open>output\<close> field (see the conventions above). The array
  \<^verbatim>\<open>table\<close> is a list; \<^verbatim>\<open>NewRedactor\<close> gives it its 255 elements.
\<close>

record Redactor =
  replacement :: "byte list"
  offset :: int
  minlen :: int
  maxlen :: int
  table :: "tableEntry list"
  outbuf :: "byte list"

subsection \<open>\<^verbatim>\<open>NewRedactor\<close>\<close>

text \<open>The first loop: the lengths of the shortest and the longest needle.\<close>

fun needleLens :: "byte list list \<Rightarrow> int \<Rightarrow> int \<Rightarrow> int \<times> int" where
  "needleLens [] minNeedleLen maxNeedleLen = (minNeedleLen, maxNeedleLen)"
| "needleLens (needle # rest) minNeedleLen maxNeedleLen =
     needleLens rest
       (if int (length needle) < minNeedleLen \<or> minNeedleLen = 0
        then int (length needle) else minNeedleLen)
       (if int (length needle) > maxNeedleLen then int (length needle) else maxNeedleLen)"

text \<open>
  The body of the inner loop, for the code point \<open>ch\<close> at byte index \<open>i\<close>:
  \<^verbatim>\<open>redactor.table[ch]\<close> is an index expression on an array of 255 elements.
\<close>

definition registerRune :: "byte list \<Rightarrow> int \<Rightarrow> int \<Rightarrow> tableEntry list \<Rightarrow> error + tableEntry list" where
  "registerRune needle i ch tbl =
     (let skp = int (length needle) - i - 1 in
      bindE (index tbl ch) (\<lambda>ent.
        let ent1 = (if skp < skip ent then ent\<lparr>skip := skp\<rparr> else ent);
            ent2 = (if skp = 0 then ent1\<lparr>needles := needles ent1 @ [needle]\<rparr> else ent1)
        in Inr (tbl[nat ch := ent2])))"

fun registerRunes :: "byte list \<Rightarrow> (int \<times> int) list \<Rightarrow> tableEntry list \<Rightarrow> error + tableEntry list" where
  "registerRunes needle [] tbl = Inr tbl"
| "registerRunes needle ((i, ch) # rest) tbl =
     bindE (registerRune needle i ch tbl) (registerRunes needle rest)"

fun registerNeedles :: "byte list list \<Rightarrow> tableEntry list \<Rightarrow> error + tableEntry list" where
  "registerNeedles [] tbl = Inr tbl"
| "registerNeedles (needle # rest) tbl =
     bindE (registerRunes needle (rangeString 0 needle) tbl) (registerNeedles rest)"

definition NewRedactor :: "byte list \<Rightarrow> byte list list \<Rightarrow> error + Redactor" where
  "NewRedactor repl ns =
     (let (minNeedleLen, maxNeedleLen) = needleLens ns 0 0 in
      bindE (registerNeedles ns (replicate 255 \<lparr>skip = minNeedleLen, needles = []\<rparr>))
        (\<lambda>tbl. Inr \<lparr>replacement = repl, offset = minNeedleLen - 1,
                    minlen = minNeedleLen, maxlen = maxNeedleLen,
                    table = tbl, outbuf = []\<rparr>))"

subsection \<open>\<^verbatim>\<open>Write\<close>\<close>

text \<open>
  What the body of \<^verbatim>\<open>if bytes.Equal(needle, candidate)\<close> does, with \<open>cursor\<close> already
  moved past the byte: the new Redactor, cursor and \<open>doneTo\<close>.
\<close>

definition redactMatch :: "Redactor \<Rightarrow> byte list \<Rightarrow> int \<Rightarrow> int \<Rightarrow> int \<Rightarrow> error + Redactor \<times> int \<times> int" where
  "redactMatch redactor input cursor doneTo startSubstr =
     bindE (if startSubstr < 0
            then sliceOf (outbuf redactor) 0 (int (length (outbuf redactor)) + startSubstr)
            else if startSubstr > doneTo
            then bindE (sliceOf input doneTo startSubstr) (\<lambda>seg. Inr (outbuf redactor @ seg))
            else Inr (outbuf redactor))
       (\<lambda>ob. Inr (redactor\<lparr>outbuf := ob @ replacement redactor\<rparr>,
                  cursor + (minlen redactor - 1), cursor))"

text \<open>
  The candidate for a needle ending at \<open>cursor\<close>: \<open>None\<close> where the source says
  \<^verbatim>\<open>continue\<close>.
\<close>

definition candidateAt :: "Redactor \<Rightarrow> byte list \<Rightarrow> int \<Rightarrow> int \<Rightarrow> error + byte list option" where
  "candidateAt redactor input cursor startSubstr =
     (if startSubstr \<ge> 0 then
        bindE (sliceOf input startSubstr cursor) (\<lambda>c. Inr (Some c))
      else if - startSubstr \<le> int (length (outbuf redactor)) then
        bindE (sliceOf (outbuf redactor) (- startSubstr - 1) (int (length (outbuf redactor)))) (\<lambda>c1.
        bindE (sliceOf input 0 cursor) (\<lambda>c2. Inr (Some (c1 @ c2))))
      else Inr None)"

text \<open>
  The loop \<^verbatim>\<open>for _, needle := range redactor.table[ch].needles\<close>; it stops at the first
  needle that equals its candidate.
\<close>

fun tryNeedles :: "Redactor \<Rightarrow> byte list \<Rightarrow> int \<Rightarrow> int \<Rightarrow> byte list list \<Rightarrow> error + Redactor \<times> int \<times> int" where
  "tryNeedles redactor input cursor doneTo [] = Inr (redactor, cursor, doneTo)"
| "tryNeedles redactor input cursor doneTo (needle # rest) =
     (let startSubstr = cursor - int (length needle) in
      bindE (candidateAt redactor input cursor startSubstr) (\<lambda>candidate.
        if candidate = Some needle
        then redactMatch redactor input cursor doneTo startSubstr
        else tryNeedles redactor input cursor doneTo rest))"

text \<open>One iteration of the scan loop \<^verbatim>\<open>for cursor < len(input)\<close>.\<close>

definition scanStep :: "Redactor \<Rightarrow> byte list \<Rightarrow> int \<Rightarrow> int \<Rightarrow> error + Redactor \<times> int \<times> int" where
  "scanStep redactor input cursor doneTo =
     bindE (index input cursor) (\<lambda>ch.
     bindE (index (table redactor) (uint ch)) (\<lambda>ent.
       if skip ent \<noteq> 0 then
         (let cursor' = cursor + skip ent;
              confirmedTo = (if cursor' - maxlen redactor - 1 > int (length input)
                             then int (length input) else cursor' - maxlen redactor - 1)
          in if confirmedTo > doneTo
             then bindE (sliceOf input doneTo confirmedTo) (\<lambda>seg.
                    Inr (redactor\<lparr>outbuf := outbuf redactor @ seg\<rparr>, cursor', confirmedTo))
             else Inr (redactor, cursor', doneTo))
       else tryNeedles redactor input (cursor + 1) doneTo (needles ent)))"

text \<open>
  The scan loop. Its result is \<open>None\<close> when the loop does not end, \<open>Some (Inl e)\<close> when
  an iteration panics.
\<close>

partial_function (option) scanLoop :: "Redactor \<Rightarrow> byte list \<Rightarrow> int \<Rightarrow> int \<Rightarrow> (error + Redactor \<times> int \<times> int) option" where
  "scanLoop redactor input cursor doneTo =
     (if cursor < int (length input) then
        (case scanStep redactor input cursor doneTo of
           Inl e \<Rightarrow> Some (Inl e)
         | Inr st \<Rightarrow> scanLoop (fst st) input (fst (snd st)) (snd (snd st)))
      else Some (Inr (redactor, cursor, doneTo)))"

declare scanLoop.simps [code]

text \<open>
  The loop \<^verbatim>\<open>for i := doneTo; i < len(input); i++\<close> that pushes line endings through.
  \<open>ob\<close> is \<^verbatim>\<open>redactor.outbuf\<close>.
\<close>

function lineFlush :: "byte list \<Rightarrow> int \<Rightarrow> int \<Rightarrow> byte list \<Rightarrow> error + int \<times> byte list" where
  "lineFlush input i doneTo ob =
     (if i < int (length input) then
        bindE (index input i) (\<lambda>b.
          if b = 0x0D \<or> b = 0x0A
          then bindE (sliceOf input doneTo (i + 1)) (\<lambda>seg. lineFlush input (i + 1) (i + 1) (ob @ seg))
          else lineFlush input (i + 1) doneTo ob)
      else Inr (doneTo, ob))"
  by pat_completeness auto
termination
  by (relation "measure (\<lambda>(input, i, doneTo, ob). nat (int (length input) - i))") auto

text \<open>
  The two loops together: the Redactor with the staged bytes in \<open>outbuf\<close>, the final
  \<open>cursor\<close> and the final \<open>doneTo\<close>.
\<close>

definition confirm :: "Redactor \<Rightarrow> byte list \<Rightarrow> (error + Redactor \<times> int \<times> int) option" where
  "confirm redactor input =
     (case scanLoop redactor input (offset redactor) 0 of
        None \<Rightarrow> None
      | Some (Inl e) \<Rightarrow> Some (Inl e)
      | Some (Inr (redactor', cursor, doneTo)) \<Rightarrow>
          Some (bindE (lineFlush input doneTo doneTo (outbuf redactor')) (\<lambda>(doneTo', ob).
                  Inr (redactor'\<lparr>outbuf := ob\<rparr>, cursor, doneTo'))))"

text \<open>The end of \<^verbatim>\<open>Write\<close>: push the buffer down or keep the whole chunk.\<close>

definition pushDown :: "Redactor \<Rightarrow> sink \<Rightarrow> byte list \<Rightarrow> int \<Rightarrow> int \<Rightarrow> error + Redactor \<times> sink" where
  "pushDown redactor out input cursor doneTo =
     (if doneTo > 0 then
        bindE (sliceOf input doneTo (int (length input))) (\<lambda>tail.
          Inr (redactor\<lparr>outbuf := tail, offset := cursor - int (length input)\<rparr>,
               out @ [outbuf redactor]))
      else
        Inr (redactor\<lparr>outbuf := outbuf redactor @ input,
                       offset := cursor - int (length input)\<rparr>, out))"

definition Write :: "Redactor \<Rightarrow> sink \<Rightarrow> byte list \<Rightarrow> (error + Redactor \<times> sink) option" where
  "Write redactor out input =
     (case confirm redactor input of
        None \<Rightarrow> None
      | Some r \<Rightarrow> Some (bindE r (\<lambda>(redactor', cursor, doneTo).
                         pushDown redactor' out input cursor doneTo)))"

subsection \<open>\<^verbatim>\<open>Sync\<close>\<close>

text \<open>
  \<^verbatim>\<open>func (redactor Redactor) Sync() error\<close> has a value receiver: it runs on a copy of
  the caller's struct. The result is that copy after the assignment to its \<open>outbuf\<close>,
  and the writer; Go drops the copy when \<^verbatim>\<open>Sync\<close> returns, and the caller's Redactor
  is the one it had.
\<close>

definition Sync :: "Redactor \<Rightarrow> sink \<Rightarrow> Redactor \<times> sink" where
  "Sync redactor out = (redactor\<lparr>outbuf := take 0 (outbuf redactor)\<rparr>, out @ [outbuf redactor])"

subsection \<open>A stream through the Redactor\<close>

text \<open>
  How the caller drives the Redactor: one \<^verbatim>\<open>Write\<close> per chunk, in order, on the same
  Redactor and writer; a panic ends the run.
\<close>

fun writeChunks :: "Redactor \<Rightarrow> sink \<Rightarrow> byte list list \<Rightarrow> (error + Redactor \<times> sink) option" where
  "writeChunks redactor out [] = Some (Inr (redactor, out))"
| "writeChunks redactor out (chunk # rest) =
     (case Write redactor out chunk of
        None \<Rightarrow> None
      | Some (Inl e) \<Rightarrow> Some (Inl e)
      | Some (Inr st) \<Rightarrow> writeChunks (fst st) (snd st) rest)"

text \<open>
  The call \<^verbatim>\<open>redactor.Sync()\<close> as the caller sees it: the method ran on a copy, so the
  caller keeps its Redactor and sees the writer after the call.
\<close>

definition callSync :: "Redactor \<Rightarrow> sink \<Rightarrow> Redactor \<times> sink" where
  "callSync redactor out = (redactor, snd (Sync redactor out))"

text \<open>Construction, then the chunks: the Redactor and the writer after the last chunk.\<close>

definition writeStream :: "byte list \<Rightarrow> byte list list \<Rightarrow> byte list list \<Rightarrow> (error + Redactor \<times> sink) option" where
  "writeStream repl ns chunks =
     (case NewRedactor repl ns of
        Inl e \<Rightarrow> Some (Inl e)
      | Inr redactor \<Rightarrow> writeChunks redactor [] chunks)"

text \<open>A further \<^verbatim>\<open>Sync\<close> call at the end of a run.\<close>

definition thenSync :: "(error + Redactor \<times> sink) option \<Rightarrow> (error + Redactor \<times> sink) option" where
  "thenSync run = map_option (map_sum id (\<lambda>st. callSync (fst st) (snd st))) run"

text \<open>
  What a run leaves: the slices the writer has received, the Redactor's buffer, and the
  length of the longest needle.
\<close>

definition written :: "(error + Redactor \<times> sink) option \<Rightarrow> (error + sink) option" where
  "written run = map_option (map_sum id snd) run"

definition retained :: "(error + Redactor \<times> sink) option \<Rightarrow> (error + byte list) option" where
  "retained run = map_option (map_sum id (\<lambda>st. outbuf (fst st))) run"

definition longest :: "(error + Redactor \<times> sink) option \<Rightarrow> (error + int) option" where
  "longest run = map_option (map_sum id (\<lambda>st. maxlen (fst st))) run"

text \<open>
  Construction, the chunks, then one \<^verbatim>\<open>Sync\<close>: the bytes the writer has received,
  concatenated.
\<close>

definition redactStream :: "byte list \<Rightarrow> byte list list \<Rightarrow> byte list list \<Rightarrow> (error + byte list) option" where
  "redactStream repl ns chunks =
     map_option (map_sum id concat) (written (thenSync (writeStream repl ns chunks)))"

section \<open>Notions used in the statements\<close>

text \<open>
  The needle is appended to the candidates of table entry \<open>k\<close>: the range loop over it
  reaches \<^verbatim>\<open>skip == 0\<close>, that is byte index \<^verbatim>\<open>len(needle) - 1\<close>, with the code point
  \<open>k\<close>. For a needle that ends in an ASCII byte, \<open>k\<close> is that byte.
\<close>

definition registersAt :: "byte list \<Rightarrow> nat \<Rightarrow> bool" where
  "registersAt needle k = ((int (length needle) - 1, int k) \<in> set (rangeString 0 needle))"

text \<open>
  The needle equals its candidate at the position \<open>cursor\<close> (already moved past the
  byte): the test \<^verbatim>\<open>bytes.Equal(needle, candidate)\<close> of \<^verbatim>\<open>Write\<close> succeeds.
\<close>

definition matchesAt :: "Redactor \<Rightarrow> byte list \<Rightarrow> int \<Rightarrow> byte list \<Rightarrow> bool" where
  "matchesAt redactor input cursor needle =
     (candidateAt redactor input cursor (cursor - int (length needle)) = Inr (Some needle))"

text \<open>No needle occurs in the byte sequence.\<close>

definition clean :: "byte list list \<Rightarrow> byte list \<Rightarrow> bool" where
  "clean ns s = (\<forall>n \<in> set ns. \<not> sublist n s)"

text \<open>
  What \<^verbatim>\<open>NewRedactor\<close> establishes for a non-empty set of non-empty needles and
  \<^verbatim>\<open>Write\<close> never changes: the table has its 255 entries, no skip is negative, no
  skip exceeds \<open>maxlen\<close>, every candidate is one of the needles and is no longer than
  \<open>maxlen\<close>, and \<open>minlen\<close> is positive.
\<close>

definition compiled :: "byte list list \<Rightarrow> Redactor \<Rightarrow> bool" where
  "compiled ns r =
     (length (table r) = 255 \<and> 1 \<le> minlen r \<and>
      (\<forall>e \<in> set (table r). 0 \<le> skip e \<and> skip e \<le> maxlen r \<and>
         (\<forall>n \<in> set (needles e). n \<in> set ns \<and> int (length n) \<le> maxlen r)))"

text \<open>
  The invariant of the scan loop on a stream without needles: \<open>ob0\<close> is \<open>outbuf\<close> at the
  start of the call, the bytes before \<open>doneTo\<close> have been appended to it unchanged, and
  once something has been confirmed the cursor is more than \<open>maxlen + 1\<close> bytes into
  the chunk.
\<close>

definition scanInv :: "byte list list \<Rightarrow> byte list \<Rightarrow> byte list \<Rightarrow> Redactor \<Rightarrow> int \<Rightarrow> int \<Rightarrow> bool" where
  "scanInv ns ob0 input r c d =
     (compiled ns r \<and> 0 \<le> c \<and> 0 \<le> d \<and> d \<le> int (length input) \<and>
      outbuf r = ob0 @ take (nat d) input \<and> (0 < d \<longrightarrow> maxlen r + 1 < c))"

text \<open>No needle occurs inside a different needle.\<close>

definition infixFree :: "byte list list \<Rightarrow> bool" where
  "infixFree ns = (\<forall>n \<in> set ns. \<forall>m \<in> set ns. sublist n m \<longrightarrow> n = m)"

text \<open>
  The needle occurs in \<open>u @ v\<close> across the join: its first \<open>k\<close> bytes end \<open>u\<close> and the
  rest starts \<open>v\<close>, with at least one byte on each side.
\<close>

definition straddles :: "byte list \<Rightarrow> byte list \<Rightarrow> byte list \<Rightarrow> bool" where
  "straddles n u v = list_ex (\<lambda>k. suffix (take k n) u \<and> prefix (drop k n) v) [1..<length n]"

text \<open>
  No occurrence of a needle in the stream lies across the start of a chunk; \<open>before\<close> is
  the part of the stream in front of the chunks.
\<close>

fun noStraddle :: "byte list list \<Rightarrow> byte list \<Rightarrow> byte list list \<Rightarrow> bool" where
  "noStraddle ns before [] = True"
| "noStraddle ns before (chunk # rest) =
     ((\<forall>n \<in> set ns. \<not> straddles n before (concat (chunk # rest))) \<and>
      noStraddle ns (before @ chunk) rest)"

text \<open>
  A state of the scan loop in a call that started with the buffer \<open>ob0\<close>: while nothing
  is confirmed the buffer is \<open>ob0\<close>; once something is, either the cursor is more than
  \<open>maxlen + 1\<close> bytes into the chunk or a needle occurs in the chunk before the cursor.
\<close>

definition staged :: "byte list list \<Rightarrow> byte list \<Rightarrow> byte list \<Rightarrow> Redactor \<Rightarrow> int \<Rightarrow> int \<Rightarrow> bool" where
  "staged ns ob0 input r c d =
     (compiled ns r \<and> 0 \<le> c \<and> 0 \<le> d \<and> d \<le> int (length input) \<and>
      (d = 0 \<longrightarrow> outbuf r = ob0) \<and>
      (0 < d \<longrightarrow> maxlen r + 1 < c \<or> (\<exists>n \<in> set ns. sublist n (take (nat c) input))))"

text \<open>
  The scan of the stream \<open>x @ y\<close> in one call (\<open>rA\<close>, \<open>cA\<close>, \<open>dA\<close>) and the scan of the
  chunk \<open>y\<close> in a call that follows the calls for \<open>x\<close> (\<open>rB\<close>, \<open>cB\<close>, \<open>dB\<close>; \<open>sunk\<close> are
  the bytes the writer has received before) are at the same byte with the same output.
\<close>

definition inStep :: "byte list \<Rightarrow> byte list \<Rightarrow> byte list \<Rightarrow>
    Redactor \<Rightarrow> int \<Rightarrow> int \<Rightarrow> Redactor \<Rightarrow> int \<Rightarrow> int \<Rightarrow> bool" where
  "inStep x y sunk rA cA dA rB cB dB =
     (table rA = table rB \<and> minlen rA = minlen rB \<and> maxlen rA = maxlen rB \<and>
      replacement rA = replacement rB \<and>
      cA = cB + int (length x) \<and> dB = max 0 (dA - int (length x)) \<and>
      outbuf rA @ drop (nat dA) (x @ y) = sunk @ outbuf rB @ drop (nat dB) y)"

text \<open>
  After the calls for the chunks of \<open>x\<close>, the Redactor \<open>r\<close> and the writer \<open>out\<close> are
  where the scan of \<open>x\<close> in one call from the fresh Redactor \<open>r0\<close> is: the same carried-over
  offset and the same bytes written or retained.
\<close>

definition tracks :: "byte list list \<Rightarrow> Redactor \<Rightarrow> byte list \<Rightarrow> Redactor \<Rightarrow> sink \<Rightarrow> bool" where
  "tracks ns r0 x r out =
     (\<exists>rA cA dA.
        scanLoop r0 x (offset r0) 0 = Some (Inr (rA, cA, dA)) \<and>
        staged ns [] x rA cA dA \<and> int (length x) \<le> cA \<and>
        compiled ns r \<and> table rA = table r \<and> minlen rA = minlen r \<and> maxlen rA = maxlen r \<and>
        replacement rA = replacement r \<and> offset r = cA - int (length x) \<and>
        concat out @ outbuf r = outbuf rA @ drop (nat dA) x \<and> suffix (outbuf r) x)"

section \<open>Basic facts\<close>

declare lineFlush.simps [simp del]

lemma bindE_Inl [simp]: "bindE (Inl e) f = Inl e"
  by (simp add: bindE_def)

lemma bindE_Inr [simp]: "bindE (Inr x) f = f x"
  by (simp add: bindE_def)

lemma bindE_eq_Inr: "bindE m f = Inr y \<longleftrightarrow> (\<exists>x. m = Inr x \<and> f x = Inr y)"
  by (cases m) simp_all

lemma index_eq_Inr: "index xs i = Inr x \<longleftrightarrow> 0 \<le> i \<and> i < int (length xs) \<and> x = xs ! nat i"
  by (auto simp: index_def)

lemma index_in_set: "index xs i = Inr x \<Longrightarrow> x \<in> set xs"
  by (auto simp: index_def split: if_splits)

lemma index_ok: "0 \<le> i \<Longrightarrow> i < int (length xs) \<Longrightarrow> index xs i = Inr (xs ! nat i)"
  by (simp add: index_def)

lemma sliceOf_eq_Inr:
  "sliceOf xs lo hi = Inr ys \<longleftrightarrow>
     0 \<le> lo \<and> lo \<le> hi \<and> hi \<le> int (length xs) \<and> ys = take (nat (hi - lo)) (drop (nat lo) xs)"
  by (auto simp: sliceOf_def)

lemma sliceOf_ok:
  "0 \<le> lo \<Longrightarrow> lo \<le> hi \<Longrightarrow> hi \<le> int (length xs) \<Longrightarrow>
   sliceOf xs lo hi = Inr (take (nat (hi - lo)) (drop (nat lo) xs))"
  by (simp add: sliceOf_def)

lemma returned_Inr: "map_option isl m = Some False \<Longrightarrow> \<exists>x. m = Some (Inr x)"
proof (cases m)
  case None
  then show "map_option isl m = Some False \<Longrightarrow> ?thesis" by simp
next
  case (Some y)
  then show "map_option isl m = Some False \<Longrightarrow> ?thesis" by (cases y) auto
qed

subsection \<open>The scan loop: a panic at once, and two induction rules\<close>

lemma scanLoop_negative_cursor:
  "cursor < 0 \<Longrightarrow> scanLoop redactor input cursor doneTo = Some (Inl IndexOutOfRange)"
  by (subst scanLoop.simps) (simp add: scanStep_def index_def)

lemma scanLoop_done:
  "int (length input) \<le> cursor \<Longrightarrow>
   scanLoop redactor input cursor doneTo = Some (Inr (redactor, cursor, doneTo))"
  by (subst scanLoop.simps) simp

lemma scanLoop_step:
  "cursor < int (length input) \<Longrightarrow> scanStep redactor input cursor doneTo = Inr (r1, c1, d1) \<Longrightarrow>
   scanLoop redactor input cursor doneTo = scanLoop r1 input c1 d1"
  by (subst scanLoop.simps) simp

text \<open>Partial correctness: an invariant of the iterations holds when the loop returns.\<close>

lemma scanLoop_invariant:
  assumes run: "scanLoop redactor input cursor doneTo = Some (Inr (r', c', d'))"
    and init: "I redactor cursor doneTo"
    and step: "\<And>r c d r1 c1 d1. I r c d \<Longrightarrow> c < int (length input) \<Longrightarrow>
                 scanStep r input c d = Inr (r1, c1, d1) \<Longrightarrow> I r1 c1 d1"
  shows "I r' c' d' \<and> int (length input) \<le> c'"
proof -
  define P where "P = (\<lambda>r inp c d (y :: error + Redactor \<times> int \<times> int). inp = input \<longrightarrow> I r c d \<longrightarrow> y = Inr (r', c', d') \<longrightarrow>
              I r' c' d' \<and> int (length input) \<le> c')"
  have "P redactor input cursor doneTo (Inr (r', c', d'))"
  proof (rule scanLoop.raw_induct[OF _ run])
    fix scan' r inp c d y
    assume IH: "\<And>r inp c d y. scan' r inp c d = Some y \<Longrightarrow> P r inp c d y"
      and body: "(if c < int (length inp)
                  then case scanStep r inp c d of
                         Inl e \<Rightarrow> Some (Inl e)
                       | Inr st \<Rightarrow> scan' (fst st) inp (fst (snd st)) (snd (snd st))
                  else Some (Inr (r, c, d))) = Some y"
    show "P r inp c d y"
      unfolding P_def
    proof (intro impI)
      assume inp: "inp = input" and I: "I r c d" and y: "y = Inr (r', c', d')"
      show "I r' c' d' \<and> int (length input) \<le> c'"
      proof (cases "c < int (length inp)")
        case False
        with body y I inp show ?thesis by auto
      next
        case True
        show ?thesis
        proof (cases "scanStep r inp c d")
          case (Inl e)
          with True body y show ?thesis by auto
        next
          case (Inr st)
          obtain r1 c1 d1 where st: "st = (r1, c1, d1)" by (cases st) auto
          from True Inr st body have "scan' r1 inp c1 d1 = Some y" by simp
          from IH[OF this] have "P r1 inp c1 d1 y" .
          moreover have "I r1 c1 d1"
            using step[OF I] True Inr st inp by simp
          ultimately show ?thesis using inp y by (simp add: P_def)
        qed
      qed
    qed
  qed
  with init show ?thesis by (simp add: P_def)
qed

text \<open>
  Total correctness: when every iteration from a state of the invariant succeeds, keeps
  the invariant and moves the cursor forward, the loop returns in a state of the invariant.
\<close>

lemma scanLoop_total:
  assumes init: "I redactor cursor doneTo"
    and step: "\<And>r c d. I r c d \<Longrightarrow> c < int (length input) \<Longrightarrow>
                 \<exists>r1 c1 d1. scanStep r input c d = Inr (r1, c1, d1) \<and> I r1 c1 d1 \<and> c < c1"
  shows "\<exists>r' c' d'. scanLoop redactor input cursor doneTo = Some (Inr (r', c', d'))
           \<and> I r' c' d' \<and> int (length input) \<le> c'"
  using init
proof (induction "nat (int (length input) - cursor)" arbitrary: redactor cursor doneTo
    rule: less_induct)
  case less
  show ?case
  proof (cases "cursor < int (length input)")
    case False
    then show ?thesis using less.prems by (simp add: scanLoop_done)
  next
    case True
    from step[OF less.prems True] obtain r1 c1 d1 where
      s: "scanStep redactor input cursor doneTo = Inr (r1, c1, d1)" and i: "I r1 c1 d1"
      and c: "cursor < c1" by blast
    from True c have "nat (int (length input) - c1) < nat (int (length input) - cursor)"
      by simp
    from less.hyps[OF this i] show ?thesis
      by (simp add: scanLoop_step[OF True s])
  qed
qed

text \<open>
  The loop returns or panics whenever every iteration that succeeds moves the cursor
  forward.
\<close>

lemma scanLoop_returns:
  assumes init: "I redactor cursor doneTo"
    and step: "\<And>r c d r1 c1 d1. I r c d \<Longrightarrow> c < int (length input) \<Longrightarrow>
                 scanStep r input c d = Inr (r1, c1, d1) \<Longrightarrow> I r1 c1 d1 \<and> c < c1"
  shows "\<exists>y. scanLoop redactor input cursor doneTo = Some y"
  using init
proof (induction "nat (int (length input) - cursor)" arbitrary: redactor cursor doneTo
    rule: less_induct)
  case less
  show ?case
  proof (cases "cursor < int (length input)")
    case False
    then show ?thesis by (simp add: scanLoop_done)
  next
    case True
    show ?thesis
    proof (cases "scanStep redactor input cursor doneTo")
      case (Inl e)
      with True show ?thesis by (subst scanLoop.simps) simp
    next
      case (Inr st)
      obtain r1 c1 d1 where st: "st = (r1, c1, d1)" by (cases st) auto
      from step[OF less.prems True Inr[unfolded st]] have i: "I r1 c1 d1" and c: "cursor < c1"
        by auto
      from True c have "nat (int (length input) - c1) < nat (int (length input) - cursor)"
        by simp
      from less.hyps[OF this i] show ?thesis
        using scanLoop_step[OF True Inr[unfolded st]] by simp
    qed
  qed
qed

section \<open>What one call of \<^verbatim>\<open>Write\<close> can change\<close>

text \<open>
  The candidate loop either leaves everything as it is, or redacts one needle: \<open>doneTo\<close>
  becomes the cursor and only \<open>outbuf\<close> changes.
\<close>

lemma redactMatch_cases:
  assumes "redactMatch r input c d s = Inr (r1, c1, d1)"
  shows "d1 = c \<and> c1 = c + (minlen r - 1) \<and> (\<exists>ob. r1 = r\<lparr>outbuf := ob\<rparr>)"
  using assms by (auto simp: redactMatch_def bindE_eq_Inr split: if_splits)

lemma tryNeedles_cases:
  assumes "tryNeedles r input c d cands = Inr (r1, c1, d1)"
  shows "(r1 = r \<and> c1 = c \<and> d1 = d) \<or>
         (d1 = c \<and> c1 = c + (minlen r - 1) \<and> (\<exists>ob. r1 = r\<lparr>outbuf := ob\<rparr>))"
  using assms
proof (induction cands)
  case Nil
  then show ?case by simp
next
  case (Cons n cands)
  from Cons.prems obtain cand where
    c: "candidateAt r input c (c - int (length n)) = Inr cand" and
    k: "(if cand = Some n then redactMatch r input c d (c - int (length n))
         else tryNeedles r input c d cands) = Inr (r1, c1, d1)"
    by (auto simp: bindE_eq_Inr Let_def)
  show ?case
  proof (cases "cand = Some n")
    case True
    with k show ?thesis using redactMatch_cases by simp
  next
    case False
    with k Cons.IH show ?thesis by simp
  qed
qed

lemma scanStep_cases:
  assumes "scanStep r input c d = Inr (r1, c1, d1)"
  shows "0 \<le> c \<and> c < int (length input) \<and> (\<exists>ob. r1 = r\<lparr>outbuf := ob\<rparr>) \<and>
         ((r1 = r \<and> d1 = d) \<or> d < d1 \<or> d1 = c + 1)"
proof -
  from assms obtain ch ent where
    ch: "index input c = Inr ch" and ent: "index (table r) (uint ch) = Inr ent" and
    body: "(if skip ent \<noteq> 0 then
         (let cursor' = c + skip ent;
              confirmedTo = (if cursor' - maxlen r - 1 > int (length input)
                             then int (length input) else cursor' - maxlen r - 1)
          in if confirmedTo > d
             then bindE (sliceOf input d confirmedTo) (\<lambda>seg.
                    Inr (r\<lparr>outbuf := outbuf r @ seg\<rparr>, cursor', confirmedTo))
             else Inr (r, cursor', d))
       else tryNeedles r input (c + 1) d (needles ent)) = Inr (r1, c1, d1)"
    by (auto simp: scanStep_def bindE_eq_Inr)
  from ch have c: "0 \<le> c" "c < int (length input)" by (auto simp: index_eq_Inr)
  have same: "\<exists>ob. r = r\<lparr>outbuf := ob\<rparr>"
    by (rule exI[of _ "outbuf r"]) simp
  show ?thesis
  proof (cases "skip ent \<noteq> 0")
    case True
    with body c same show ?thesis
      by (auto simp: Let_def bindE_eq_Inr split: if_splits)
  next
    case False
    with body have "tryNeedles r input (c + 1) d (needles ent) = Inr (r1, c1, d1)" by simp
    from tryNeedles_cases[OF this] c same show ?thesis by auto
  qed
qed

text \<open>The line-ending loop either changes nothing or moves \<open>doneTo\<close> past a byte.\<close>

lemma lineFlush_cases:
  "lineFlush input i d ob = Inr (d', ob') \<Longrightarrow> (d' = d \<and> ob' = ob) \<or> 1 \<le> d'"
proof (induction input i d ob rule: lineFlush.induct)
  case (1 input i d ob)
  show ?case
  proof (cases "i < int (length input)")
    case False
    with "1.prems" show ?thesis by (simp add: lineFlush.simps)
  next
    case True
    with "1.prems" obtain b where b: "index input i = Inr b" and
      k: "(if b = 0x0D \<or> b = 0x0A
           then bindE (sliceOf input d (i + 1)) (\<lambda>seg. lineFlush input (i + 1) (i + 1) (ob @ seg))
           else lineFlush input (i + 1) d ob) = Inr (d', ob')"
      by (subst (asm) lineFlush.simps) (auto simp: bindE_eq_Inr)
    from b have i: "0 \<le> i" by (simp add: index_eq_Inr)
    show ?thesis
    proof (cases "b = 0x0D \<or> b = 0x0A")
      case False
      with k "1.IH"(2)[OF True False] show ?thesis by simp
    next
      case nl: True
      with k obtain seg where "lineFlush input (i + 1) (i + 1) (ob @ seg) = Inr (d', ob')"
        by (auto simp: bindE_eq_Inr)
      from "1.IH"(1)[OF True nl this] i show ?thesis by auto
    qed
  qed
qed

text \<open>
  When the two loops end with \<open>doneTo = 0\<close>, the Redactor is the one the call started
  with: nothing was staged.
\<close>

lemma scanLoop_nothing_staged:
  assumes "scanLoop r input c 0 = Some (Inr (r1, c1, d1))"
  shows "0 \<le> d1 \<and> (d1 = 0 \<longrightarrow> r1 = r)"
proof -
  have "(0 \<le> d1 \<and> (d1 = 0 \<longrightarrow> r1 = r)) \<and> int (length input) \<le> c1"
  proof (rule scanLoop_invariant[OF assms, where I = "\<lambda>r' c' d'. 0 \<le> d' \<and> (d' = 0 \<longrightarrow> r' = r)"])
    show "0 \<le> (0::int) \<and> ((0::int) = 0 \<longrightarrow> r = r)" by simp
  next
    fix r' c' d' r2 c2 d2
    assume "0 \<le> d' \<and> (d' = 0 \<longrightarrow> r' = r)" and "scanStep r' input c' d' = Inr (r2, c2, d2)"
    with scanStep_cases[of r' input c' d' r2 c2 d2]
    show "0 \<le> d2 \<and> (d2 = 0 \<longrightarrow> r2 = r)" by auto
  qed
  then show ?thesis by simp
qed

lemma confirm_nothing_staged:
  assumes "confirm r input = Some (Inr (r1, c1, d1))"
  shows "0 \<le> d1 \<and> (d1 = 0 \<longrightarrow> outbuf r1 = outbuf r)"
proof -
  from assms obtain r2 d2 d3 ob where
    s: "scanLoop r input (offset r) 0 = Some (Inr (r2, c1, d2))" and
    l: "lineFlush input d2 d2 (outbuf r2) = Inr (d3, ob)" and
    e: "r1 = r2\<lparr>outbuf := ob\<rparr>" "d1 = d3"
    by (auto simp: confirm_def bindE_eq_Inr split: option.splits sum.splits)
  from scanLoop_nothing_staged[OF s] lineFlush_cases[OF l] e show ?thesis by auto
qed

section \<open>Every call returns\<close>

text \<open>
  The scan loop is defined as a partial function. On the Redactors that \<^verbatim>\<open>NewRedactor\<close>
  builds it always ends: no skip is negative and \<open>minlen\<close> is positive, so every
  iteration moves the cursor forward; or \<open>minlen\<close> is 0, the offset is \<open>-1\<close> and the first
  iteration panics.
\<close>

lemma scanStep_forward:
  assumes "scanStep r input c d = Inr (r1, c1, d1)"
    and "\<forall>e \<in> set (table r). 0 \<le> skip e" and "1 \<le> minlen r"
  shows "c < c1 \<and> table r1 = table r \<and> minlen r1 = minlen r"
proof -
  from assms(1) obtain ch ent where
    ch: "index input c = Inr ch" and ent: "index (table r) (uint ch) = Inr ent" and
    body: "(if skip ent \<noteq> 0 then
         (let cursor' = c + skip ent;
              confirmedTo = (if cursor' - maxlen r - 1 > int (length input)
                             then int (length input) else cursor' - maxlen r - 1)
          in if confirmedTo > d
             then bindE (sliceOf input d confirmedTo) (\<lambda>seg.
                    Inr (r\<lparr>outbuf := outbuf r @ seg\<rparr>, cursor', confirmedTo))
             else Inr (r, cursor', d))
       else tryNeedles r input (c + 1) d (needles ent)) = Inr (r1, c1, d1)"
    by (auto simp: scanStep_def bindE_eq_Inr)
  from ent assms(2) have s0: "0 \<le> skip ent" using index_in_set by fastforce
  show ?thesis
  proof (cases "skip ent \<noteq> 0")
    case True
    with body s0 show ?thesis
      by (auto simp: Let_def bindE_eq_Inr split: if_splits)
  next
    case False
    with body have "tryNeedles r input (c + 1) d (needles ent) = Inr (r1, c1, d1)" by simp
    from tryNeedles_cases[OF this] assms(3) show ?thesis by auto
  qed
qed

lemma scanLoop_returns_compiled:
  assumes "\<forall>e \<in> set (table r). 0 \<le> skip e" and "1 \<le> minlen r"
  shows "\<exists>res. scanLoop r input c d = Some res"
proof (rule scanLoop_returns[where I = "\<lambda>r' c' d'. table r' = table r \<and> minlen r' = minlen r"])
  show "table r = table r \<and> minlen r = minlen r" by simp
next
  fix r' c' d' r1 c1 d1
  assume "table r' = table r \<and> minlen r' = minlen r"
    and "scanStep r' input c' d' = Inr (r1, c1, d1)"
  with scanStep_forward[of r' input c' d' r1 c1 d1] assms
  show "(table r1 = table r \<and> minlen r1 = minlen r) \<and> c' < c1" by auto
qed

lemma Write_returns:
  assumes "\<forall>e \<in> set (table r). 0 \<le> skip e" and "1 \<le> minlen r \<or> offset r < 0"
  shows "\<exists>res. Write r out input = Some res"
proof (cases "offset r < 0")
  case True
  then show ?thesis by (simp add: Write_def confirm_def scanLoop_negative_cursor)
next
  case False
  with assms(2) have "1 \<le> minlen r" by simp
  from scanLoop_returns_compiled[OF assms(1) this, of input "offset r" 0]
  obtain res where "scanLoop r input (offset r) 0 = Some res" by blast
  then show ?thesis
    by (cases res) (auto simp: Write_def confirm_def split: prod.splits)
qed

lemma Write_keeps_table:
  assumes "Write r out input = Some (Inr (r', out'))"
  shows "table r' = table r \<and> minlen r' = minlen r"
proof -
  from assms obtain r1 c1 d1 r2 d2 ob where
    s: "scanLoop r input (offset r) 0 = Some (Inr (r1, c1, d1))" and
    p: "pushDown (r1\<lparr>outbuf := ob\<rparr>) out input c1 d2 = Inr (r', out')"
    by (auto simp: Write_def confirm_def bindE_eq_Inr split: option.splits sum.splits)
  have "(table r1 = table r \<and> minlen r1 = minlen r) \<and> int (length input) \<le> c1"
  proof (rule scanLoop_invariant[OF s, where I = "\<lambda>r' c' d'. table r' = table r \<and> minlen r' = minlen r"])
    show "table r = table r \<and> minlen r = minlen r" by simp
  next
    fix r' c' d' r2 c2 d2
    assume "table r' = table r \<and> minlen r' = minlen r"
      and "scanStep r' input c' d' = Inr (r2, c2, d2)"
    with scanStep_cases[of r' input c' d' r2 c2 d2]
    show "table r2 = table r \<and> minlen r2 = minlen r" by auto
  qed
  with p show ?thesis
    by (auto simp: pushDown_def bindE_eq_Inr split: if_splits)
qed

lemma writeChunks_returns:
  assumes "\<forall>e \<in> set (table r). 0 \<le> skip e" and "1 \<le> minlen r \<or> offset r < 0"
  shows "\<exists>res. writeChunks r out chunks = Some res"
  using assms
proof (induction chunks arbitrary: r out)
  case Nil
  then show ?case by simp
next
  case (Cons chunk chunks)
  from Write_returns[OF Cons.prems, of out chunk] obtain res where
    w: "Write r out chunk = Some res" by blast
  show ?case
  proof (cases res)
    case (Inl e)
    with w show ?thesis by simp
  next
    case (Inr st)
    obtain r' out' where st: "st = (r', out')" by (cases st)
    from Write_keeps_table[OF w[unfolded Inr st]] have k: "table r' = table r" "minlen r' = minlen r"
      by auto
    have "1 \<le> minlen r"
    proof (rule ccontr)
      assume "\<not> 1 \<le> minlen r"
      with Cons.prems(2) have "offset r < 0" by simp
      then have "Write r out chunk = Some (Inl IndexOutOfRange)"
        by (simp add: Write_def confirm_def scanLoop_negative_cursor)
      with w Inr show False by simp
    qed
    with k Cons.prems(1) have "\<forall>e \<in> set (table r'). 0 \<le> skip e" "1 \<le> minlen r' \<or> offset r' < 0"
      by auto
    from Cons.IH[OF this, of out'] w Inr st show ?thesis by simp
  qed
qed

section \<open>The table that \<^verbatim>\<open>NewRedactor\<close> builds\<close>

subsection \<open>The range loop over a needle\<close>

lemma decodeRune_width: "1 \<le> snd (decodeRune s)"
  by (simp add: decodeRune_def Let_def)

lemma rangeString_index_bounds:
  "(i, ch) \<in> set (rangeString j bs) \<Longrightarrow> j \<le> i \<and> i < j + int (length bs)"
proof (induction j bs arbitrary: i ch rule: rangeString.induct)
  case (1 j)
  then show ?case by simp
next
  case (2 j b bs)
  let ?w = "snd (decodeRune (b # bs))"
  have w: "1 \<le> ?w" by (rule decodeRune_width)
  from "2.prems" consider "i = j" | "(i, ch) \<in> set (rangeString (j + int ?w) (drop (?w - 1) bs))"
    by auto
  then show ?case
  proof cases
    case 1
    then show ?thesis by simp
  next
    case 2
    from "2.IH"[OF 2] w show ?thesis by auto
  qed
qed

lemma rangeString_distinct: "distinct (map fst (rangeString j bs))"
proof (induction j bs rule: rangeString.induct)
  case (1 j)
  then show ?case by simp
next
  case (2 j b bs)
  let ?w = "snd (decodeRune (b # bs))"
  have w: "1 \<le> ?w" by (rule decodeRune_width)
  have "j \<notin> fst ` set (rangeString (j + int ?w) (drop (?w - 1) bs))"
  proof
    assume "j \<in> fst ` set (rangeString (j + int ?w) (drop (?w - 1) bs))"
    then obtain ch where "(j, ch) \<in> set (rangeString (j + int ?w) (drop (?w - 1) bs))" by auto
    from rangeString_index_bounds[OF this] w show False by simp
  qed
  with "2.IH" show ?case by simp
qed

lemma filter_distinct_fst:
  "distinct (map fst xs) \<Longrightarrow>
   filter (\<lambda>p. snd p = c \<and> fst p = a) xs = (if (a, c) \<in> set xs then [(a, c)] else [])"
proof (induction xs)
  case Nil
  then show ?case by simp
next
  case (Cons x xs)
  obtain i ch where x: "x = (i, ch)" by (cases x)
  from Cons.prems have d: "distinct (map fst xs)" and n: "i \<notin> fst ` set xs" by (auto simp: x)
  show ?case
  proof (cases "ch = c \<and> i = a")
    case True
    with n have "(a, c) \<notin> set xs" by force
    with True Cons.IH[OF d] show ?thesis by (simp add: x)
  next
    case False
    with Cons.IH[OF d] show ?thesis by (auto simp: x)
  qed
qed

subsection \<open>The registration loops\<close>

lemma registerRune_effect:
  assumes "registerRune needle i ch tbl = Inr tbl'"
  shows "0 \<le> ch \<and> ch < int (length tbl) \<and> length tbl' = length tbl \<and>
         (\<forall>k < length tbl.
            needles (tbl' ! k) = needles (tbl ! k)
               @ (if int k = ch \<and> int (length needle) - i - 1 = 0 then [needle] else []) \<and>
            skip (tbl' ! k) = (if int k = ch \<and> int (length needle) - i - 1 < skip (tbl ! k)
                               then int (length needle) - i - 1 else skip (tbl ! k)))"
proof -
  from assms obtain ent where e: "index tbl ch = Inr ent" and
    t: "tbl' = tbl[nat ch := (let ent1 = (if int (length needle) - i - 1 < skip ent
                                        then ent\<lparr>skip := int (length needle) - i - 1\<rparr> else ent)
                            in (if int (length needle) - i - 1 = 0
                                then ent1\<lparr>needles := needles ent1 @ [needle]\<rparr> else ent1))]"
    by (auto simp: registerRune_def bindE_eq_Inr Let_def)
  from e have c: "0 \<le> ch" "ch < int (length tbl)" and ent: "ent = tbl ! nat ch"
    by (auto simp: index_eq_Inr)
  have "int k = ch \<longleftrightarrow> k = nat ch" for k using c by auto
  with c ent t show ?thesis
    by (auto simp: nth_list_update Let_def)
qed

lemma registerRunes_effect:
  assumes "registerRunes needle runes tbl = Inr tbl'"
    and "\<forall>p \<in> set runes. fst p < int (length needle)"
  shows "length tbl' = length tbl \<and>
         (\<forall>k < length tbl.
            needles (tbl' ! k) = needles (tbl ! k)
               @ map (\<lambda>p. needle)
                   (filter (\<lambda>p. snd p = int k \<and> fst p = int (length needle) - 1) runes) \<and>
            (0 \<le> skip (tbl ! k) \<longrightarrow> 0 \<le> skip (tbl' ! k)) \<and> skip (tbl' ! k) \<le> skip (tbl ! k))"
  using assms
proof (induction runes arbitrary: tbl)
  case Nil
  then show ?case by simp
next
  case (Cons p runes)
  obtain i ch where p: "p = (i, ch)" by (cases p)
  from Cons.prems(1) obtain tbl1 where
    r: "registerRune needle i ch tbl = Inr tbl1" and
    rs: "registerRunes needle runes tbl1 = Inr tbl'"
    by (auto simp: p bindE_eq_Inr)
  from Cons.prems(2) have i: "i < int (length needle)" and
    rest: "\<forall>p \<in> set runes. fst p < int (length needle)" by (auto simp: p)
  note e1 = registerRune_effect[OF r]
  note e2 = Cons.IH[OF rs rest]
  from e1 e2 have len: "length tbl' = length tbl" by simp
  have "needles (tbl' ! k) = needles (tbl ! k)
               @ map (\<lambda>p. needle)
                   (filter (\<lambda>p. snd p = int k \<and> fst p = int (length needle) - 1) (p # runes)) \<and>
        (0 \<le> skip (tbl ! k) \<longrightarrow> 0 \<le> skip (tbl' ! k)) \<and> skip (tbl' ! k) \<le> skip (tbl ! k)"
    if k: "k < length tbl" for k
  proof -
    from k e1 have k1: "k < length tbl1" by simp
    from e1 k have a: "needles (tbl1 ! k) = needles (tbl ! k)
               @ (if int k = ch \<and> int (length needle) - i - 1 = 0 then [needle] else [])"
      and b: "skip (tbl1 ! k) = (if int k = ch \<and> int (length needle) - i - 1 < skip (tbl ! k)
                               then int (length needle) - i - 1 else skip (tbl ! k))" by auto
    from e2 k1 have c: "needles (tbl' ! k) = needles (tbl1 ! k)
               @ map (\<lambda>p. needle)
                   (filter (\<lambda>p. snd p = int k \<and> fst p = int (length needle) - 1) runes)"
      and d: "0 \<le> skip (tbl1 ! k) \<longrightarrow> 0 \<le> skip (tbl' ! k)" "skip (tbl' ! k) \<le> skip (tbl1 ! k)"
      by auto
    have "(int (length needle) - i - 1 = 0) = (i = int (length needle) - 1)" by auto
    with a c have "needles (tbl' ! k) = needles (tbl ! k)
               @ map (\<lambda>p. needle)
                   (filter (\<lambda>p. snd p = int k \<and> fst p = int (length needle) - 1) (p # runes))"
      by (auto simp: p)
    moreover from b d i have "(0 \<le> skip (tbl ! k) \<longrightarrow> 0 \<le> skip (tbl' ! k))"
      by (auto split: if_splits)
    moreover from b d have "skip (tbl' ! k) \<le> skip (tbl ! k)"
      by (auto split: if_splits)
    ultimately show ?thesis by blast
  qed
  with len show ?case by blast
qed

lemma registerRunes_rangeString:
  assumes "registerRunes needle (rangeString 0 needle) tbl = Inr tbl'"
  shows "length tbl' = length tbl \<and>
         (\<forall>k < length tbl.
            needles (tbl' ! k) = needles (tbl ! k) @ (if registersAt needle k then [needle] else []) \<and>
            (0 \<le> skip (tbl ! k) \<longrightarrow> 0 \<le> skip (tbl' ! k)) \<and> skip (tbl' ! k) \<le> skip (tbl ! k))"
proof -
  have b: "\<forall>p \<in> set (rangeString 0 needle). fst p < int (length needle)"
    using rangeString_index_bounds[of _ _ 0 needle] by auto
  have "map (\<lambda>p. needle)
          (filter (\<lambda>p. snd p = int k \<and> fst p = int (length needle) - 1) (rangeString 0 needle))
        = (if registersAt needle k then [needle] else [])" for k
    by (simp add: filter_distinct_fst[OF rangeString_distinct] registersAt_def)
  with registerRunes_effect[OF assms b] show ?thesis by simp
qed

lemma registerNeedles_effect:
  assumes "registerNeedles ns tbl = Inr tbl'"
  shows "length tbl' = length tbl \<and>
         (\<forall>k < length tbl.
            needles (tbl' ! k) = needles (tbl ! k) @ filter (\<lambda>n. registersAt n k) ns \<and>
            (0 \<le> skip (tbl ! k) \<longrightarrow> 0 \<le> skip (tbl' ! k)) \<and> skip (tbl' ! k) \<le> skip (tbl ! k))"
  using assms
proof (induction ns arbitrary: tbl)
  case Nil
  then show ?case by simp
next
  case (Cons n ns)
  from Cons.prems obtain tbl1 where
    r: "registerRunes n (rangeString 0 n) tbl = Inr tbl1" and
    rs: "registerNeedles ns tbl1 = Inr tbl'"
    by (auto simp: bindE_eq_Inr)
  note e1 = registerRunes_rangeString[OF r]
  note e2 = Cons.IH[OF rs]
  from e1 e2 show ?case by force
qed

subsection \<open>The Redactor that \<^verbatim>\<open>NewRedactor\<close> returns\<close>

lemma needleLens_bounds:
  assumes "needleLens ns mn mx = (a, b)" and "0 \<le> mn"
  shows "0 \<le> a \<and> mx \<le> b \<and> (\<forall>n \<in> set ns. int (length n) \<le> b) \<and> (mn \<le> mx \<longrightarrow> a \<le> b) \<and>
         ((\<forall>n \<in> set ns. n \<noteq> []) \<longrightarrow> ns \<noteq> [] \<or> 1 \<le> mn \<longrightarrow> 1 \<le> a)"
  using assms
proof (induction ns arbitrary: mn mx)
  case Nil
  then show ?case by simp
next
  case (Cons n ns)
  let ?mn = "if int (length n) < mn \<or> mn = 0 then int (length n) else mn"
  let ?mx = "if int (length n) > mx then int (length n) else mx"
  from Cons.prems have r: "needleLens ns ?mn ?mx = (a, b)" by simp
  from Cons.prems have p: "0 \<le> ?mn" by simp
  note ih = Cons.IH[OF r p]
  have "1 \<le> ?mn" if "n \<noteq> []"
    using that Cons.prems(2) by (cases n) auto
  with ih show ?case by (auto split: if_splits)
qed

lemma NewRedactor_facts:
  assumes "NewRedactor repl ns = Inr r"
  shows "length (table r) = 255 \<and> replacement r = repl \<and> outbuf r = [] \<and>
         offset r = minlen r - 1 \<and> 0 \<le> minlen r \<and> minlen r \<le> maxlen r \<and>
         (\<forall>n \<in> set ns. int (length n) \<le> maxlen r) \<and>
         (\<forall>k < 255. needles (table r ! k) = filter (\<lambda>n. registersAt n k) ns \<and>
                     0 \<le> skip (table r ! k) \<and> skip (table r ! k) \<le> minlen r) \<and>
         ((\<forall>n \<in> set ns. n \<noteq> []) \<longrightarrow> ns \<noteq> [] \<longrightarrow> 1 \<le> minlen r)"
proof -
  obtain mn mx where l: "needleLens ns 0 0 = (mn, mx)" by (cases "needleLens ns 0 0")
  with assms obtain tbl where
    t: "registerNeedles ns (replicate 255 \<lparr>skip = mn, needles = []\<rparr>) = Inr tbl" and
    r: "r = \<lparr>replacement = repl, offset = mn - 1, minlen = mn, maxlen = mx,
             table = tbl, outbuf = []\<rparr>"
    by (auto simp: NewRedactor_def bindE_eq_Inr)
  from needleLens_bounds[OF l] have b: "0 \<le> mn" "mn \<le> mx" "\<forall>n \<in> set ns. int (length n) \<le> mx"
    "(\<forall>n \<in> set ns. n \<noteq> []) \<longrightarrow> ns \<noteq> [] \<longrightarrow> 1 \<le> mn" by auto
  from registerNeedles_effect[OF t] b(1) have
    "length tbl = 255"
    "\<forall>k < 255. needles (tbl ! k) = filter (\<lambda>n. registersAt n k) ns \<and>
                0 \<le> skip (tbl ! k) \<and> skip (tbl ! k) \<le> mn"
    by auto
  with b r show ?thesis by simp
qed

subsection \<open>The candidate loop picks the first needle that matches\<close>

lemma candidateAt_returns:
  assumes "0 \<le> c" and "c \<le> int (length input)" and "s \<le> c"
  shows "\<exists>cand. candidateAt r input c s = Inr cand"
  using assms by (simp add: candidateAt_def sliceOf_def)

lemma tryNeedles_find:
  assumes "0 \<le> c" and "c \<le> int (length input)"
  shows "tryNeedles r input c d cands =
           (case find (matchesAt r input c) cands of
              None \<Rightarrow> Inr (r, c, d)
            | Some needle \<Rightarrow> redactMatch r input c d (c - int (length needle)))"
proof (induction cands)
  case Nil
  then show ?case by simp
next
  case (Cons n cands)
  from candidateAt_returns[OF assms, of "c - int (length n)" r]
  obtain cand where "candidateAt r input c (c - int (length n)) = Inr cand" by auto
  with Cons.IH show ?case by (simp add: matchesAt_def Let_def)
qed

subsection \<open>A run from construction returns\<close>

text \<open>So a run from construction always returns: with a result or with a panic.\<close>

lemma writeStream_returns: "\<exists>res. writeStream repl ns chunks = Some res"
proof (cases "NewRedactor repl ns")
  case (Inl e)
  then show ?thesis by (simp add: writeStream_def)
next
  case (Inr r)
  note f = NewRedactor_facts[OF Inr]
  have "0 \<le> skip e" if "e \<in> set (table r)" for e
  proof -
    from that f obtain k where "k < 255" "e = table r ! k" by (auto simp: in_set_conv_nth)
    with f show ?thesis by auto
  qed
  moreover from f have "1 \<le> minlen r \<or> offset r < 0" by auto
  ultimately have "\<exists>res. writeChunks r [] chunks = Some res"
    by (intro writeChunks_returns) auto
  with Inr show ?thesis by (simp add: writeStream_def)
qed

subsection \<open>Which needles register on which table entry\<close>

text \<open>
  The range loop decodes code points, \<^verbatim>\<open>Write\<close> looks bytes up. A needle registers as a
  candidate exactly when its last byte is an ASCII byte, and then on that byte: a
  multi-byte code point starts before the last byte, and an invalid byte decodes to
  \<^verbatim>\<open>0xFFFD\<close>, which is no index of the table.
\<close>

lemma decodeRune_ascii: "b < 0x80 \<Longrightarrow> decodeRune (b # bs) = (uint b, 1)"
  by (simp add: decodeRune_def)

lemma decodeRune_single: "\<not> b < 0x80 \<Longrightarrow> decodeRune [b] = (RuneError, 1)"
  by (simp add: decodeRune_def Let_def)

lemma byte_ge_0x80:
  fixes b lo :: byte
  assumes "\<not> b < lo" and "lo = 0x80 \<or> lo = 0x90 \<or> lo = 0xA0"
  shows "\<not> b < 0x80"
  using assms by (auto simp: word_less_nat_alt)

lemma decodeRune_continuation:
  assumes "1 < snd (decodeRune s)" and "1 \<le> i" and "i < snd (decodeRune s)"
  shows "snd (decodeRune s) \<le> length s \<and> \<not> s ! i < 0x80"
proof -
  let ?lo = "(if s ! 0 = 0xE0 then 0xA0 else if s ! 0 = 0xF0 then 0x90 else (0x80::byte))"
  have lo: "?lo = 0x80 \<or> ?lo = 0x90 \<or> ?lo = 0xA0" by simp
  from assms(1) have w: "snd (decodeRune s) \<le> length s" and
    c1: "\<not> s ! 1 < ?lo" and
    c2: "2 < snd (decodeRune s) \<longrightarrow> \<not> s ! 2 < 0x80" and
    c3: "3 < snd (decodeRune s) \<longrightarrow> \<not> s ! 3 < 0x80" and
    w4: "snd (decodeRune s) \<le> 4"
    by (auto simp: decodeRune_def Let_def split: if_splits)
  from byte_ge_0x80[OF c1 lo] have c1': "\<not> s ! 1 < 0x80" .
  from assms(2,3) w4 have "i = 1 \<or> i = 2 \<or> i = 3" by auto
  with c1' c2 c3 assms(3) w show ?thesis by auto
qed

lemma rangeString_last_ascii:
  assumes "bs \<noteq> []" and "last bs < 0x80"
  shows "(j + int (length bs) - 1, uint (last bs)) \<in> set (rangeString j bs)"
  using assms
proof (induction j bs rule: rangeString.induct)
  case (1 j)
  then show ?case by simp
next
  case (2 j b bs)
  let ?w = "snd (decodeRune (b # bs))"
  show ?case
  proof (cases "bs = []")
    case True
    with "2.prems" show ?thesis by (simp add: decodeRune_ascii)
  next
    case False
    with "2.prems" have l: "last bs < 0x80" by simp
    have w1: "1 \<le> ?w" by (rule decodeRune_width)
    have short: "?w - 1 < length bs"
    proof (rule ccontr)
      assume a: "\<not> ?w - 1 < length bs"
      with False have w2: "1 < ?w" by (cases bs) auto
      from False have i1: "1 \<le> length bs" by (cases bs) auto
      from a w2 have i2: "length bs < ?w" by simp
      from decodeRune_continuation[OF w2 i1 i2]
      have "?w \<le> length (b # bs)" "\<not> (b # bs) ! length bs < 0x80"
        by blast+
      moreover from False have "(b # bs) ! length bs = last bs"
        by (simp add: last_conv_nth)
      ultimately show False using l by simp
    qed
    then have ne: "drop (?w - 1) bs \<noteq> []" and la: "last (drop (?w - 1) bs) = last bs"
      by simp_all
    from "2.IH"[OF ne] l la
    have "(j + int ?w + int (length (drop (?w - 1) bs)) - 1, uint (last bs))
            \<in> set (rangeString (j + int ?w) (drop (?w - 1) bs))" by simp
    moreover from short w1 have "j + int ?w + int (length (drop (?w - 1) bs)) - 1
        = j + int (length (b # bs)) - 1" by (simp add: of_nat_diff)
    ultimately show ?thesis using False by simp
  qed
qed

lemma rangeString_decodes:
  "(i, ch) \<in> set (rangeString j bs) \<Longrightarrow>
   ch = fst (decodeRune (drop (nat (i - j)) bs)) \<and> j \<le> i \<and> i < j + int (length bs)"
proof (induction j bs arbitrary: i ch rule: rangeString.induct)
  case (1 j)
  then show ?case by simp
next
  case (2 j b bs)
  let ?w = "snd (decodeRune (b # bs))"
  have w: "1 \<le> ?w" by (rule decodeRune_width)
  from "2.prems" consider "i = j" "ch = fst (decodeRune (b # bs))"
    | "(i, ch) \<in> set (rangeString (j + int ?w) (drop (?w - 1) bs))"
    by auto
  then show ?case
  proof cases
    case 1
    then show ?thesis by simp
  next
    case 2
    from "2.IH"[OF 2] have
      c: "ch = fst (decodeRune (drop (nat (i - (j + int ?w))) (drop (?w - 1) bs)))"
      and b: "j + int ?w \<le> i" "i < j + int ?w + int (length (drop (?w - 1) bs))" by auto
    from b w have "nat (i - j) = Suc (nat (i - (j + int ?w)) + (?w - 1))" by auto
    then have "drop (nat (i - j)) (b # bs) = drop (nat (i - (j + int ?w))) (drop (?w - 1) bs)"
      by simp
    with c b w show ?thesis by auto
  qed
qed

lemma registersAt_iff:
  assumes "k < 255"
  shows "registersAt n k \<longleftrightarrow> n \<noteq> [] \<and> last n < 0x80 \<and> unat (last n) = k"
proof
  assume "registersAt n k"
  then have m: "(int (length n) - 1, int k) \<in> set (rangeString 0 n)"
    by (simp add: registersAt_def)
  from rangeString_decodes[OF m] have
    k: "int k = fst (decodeRune (drop (nat (int (length n) - 1)) n))" and ne: "n \<noteq> []"
    by auto
  from ne have "drop (nat (int (length n) - 1)) n = [last n]"
    by (cases n rule: rev_cases) (auto simp: nat_diff_distrib')
  with k have k': "int k = fst (decodeRune [last n])" by simp
  have a: "last n < 0x80"
  proof (rule ccontr)
    assume "\<not> last n < 0x80"
    with k' assms show False by (simp add: decodeRune_single RuneError_def)
  qed
  with k' have "int k = uint (last n)" by (simp add: decodeRune_ascii)
  then have "unat (last n) = k" by (metis nat_int unat_eq_nat_uint)
  with ne a show "n \<noteq> [] \<and> last n < 0x80 \<and> unat (last n) = k" by simp
next
  assume a: "n \<noteq> [] \<and> last n < 0x80 \<and> unat (last n) = k"
  with rangeString_last_ascii[of n 0] have "(int (length n) - 1, uint (last n)) \<in> set (rangeString 0 n)"
    by simp
  moreover from a have "uint (last n) = int k" by (metis uint_nat)
  ultimately show "registersAt n k" by (simp add: registersAt_def)
qed

section \<open>A stream without needles passes through\<close>

lemma byte_below_255: "(b :: byte) \<noteq> 0xFF \<Longrightarrow> uint b < 255"
proof -
  assume "b \<noteq> 0xFF"
  then have "uint b \<noteq> 255" using word_uint_eq_iff[of b "0xFF"] by simp
  moreover have "uint b < 2 ^ 8" using uint_lt2p[of b] by simp
  ultimately show ?thesis by simp
qed

lemma NewRedactor_compiled:
  assumes "NewRedactor repl ns = Inr r" and "ns \<noteq> []" and "\<forall>n \<in> set ns. n \<noteq> []"
  shows "compiled ns r \<and> 0 \<le> offset r \<and> outbuf r = [] \<and> replacement r = repl"
proof -
  note f = NewRedactor_facts[OF assms(1)]
  have "0 \<le> skip e \<and> skip e \<le> maxlen r \<and>
        (\<forall>n \<in> set (needles e). n \<in> set ns \<and> int (length n) \<le> maxlen r)"
    if "e \<in> set (table r)" for e
  proof -
    from that f obtain k where "k < 255" "e = table r ! k" by (auto simp: in_set_conv_nth)
    with f show ?thesis by auto
  qed
  with f assms(2,3) show ?thesis by (simp add: compiled_def)
qed

text \<open>A needle that equals its candidate occurs in the buffer followed by the chunk.\<close>

lemma matchesAt_occurs:
  assumes "matchesAt r input c n" and "0 \<le> c" and "c \<le> int (length input)"
  shows "if int (length n) \<le> c then sublist n input else sublist n (outbuf r @ input)"
proof (cases "int (length n) \<le> c")
  case True
  with assms have "n = take (nat (int (length n))) (drop (nat (c - int (length n))) input)"
    by (auto simp: matchesAt_def candidateAt_def bindE_eq_Inr sliceOf_eq_Inr split: if_splits)
  then have "sublist n (drop (nat (c - int (length n))) input)"
    by (metis sublist_take)
  then have "sublist n input"
    by (meson sublist_drop sublist_order.order_trans)
  with True show ?thesis by simp
next
  case False
  with assms have "\<exists>k. drop k (outbuf r) @ take (nat c) input = n"
    by (auto simp: matchesAt_def candidateAt_def bindE_eq_Inr sliceOf_eq_Inr split: if_splits)
  then obtain k where n: "n = drop k (outbuf r) @ take (nat c) input" by auto
  have "outbuf r @ input = take k (outbuf r) @ n @ drop (nat c) input"
    by (simp add: n)
  then have "sublist n (outbuf r @ input)" unfolding sublist_def by blast
  with False show ?thesis by simp
qed

lemma tryNeedles_no_match:
  assumes "0 \<le> c" and "c \<le> int (length input)"
    and "\<forall>n \<in> set cands. \<not> matchesAt r input c n"
  shows "tryNeedles r input c d cands = Inr (r, c, d)"
proof -
  from assms(3) have "find (matchesAt r input c) cands = None"
    by (simp add: find_None_iff)
  with tryNeedles_find[OF assms(1,2)] show ?thesis by simp
qed

lemma take_take_drop:
  assumes "0 \<le> d" and "d \<le> e"
  shows "take (nat d) xs @ take (nat (e - d)) (drop (nat d) xs) = take (nat e) xs"
proof -
  from assms have "nat e = nat d + nat (e - d)" by simp
  then show ?thesis by (simp add: take_add)
qed

lemma clean_scanStep:
  assumes inv: "scanInv ns ob0 input r c d" and c: "c < int (length input)"
    and cl: "clean ns (ob0 @ input)" and ff: "\<forall>b \<in> set input. b \<noteq> 0xFF"
  shows "\<exists>r1 c1 d1. scanStep r input c d = Inr (r1, c1, d1) \<and> scanInv ns ob0 input r1 c1 d1 \<and> c < c1"
proof -
  from inv have comp: "compiled ns r" and c0: "0 \<le> c" and d0: "0 \<le> d"
    and dl: "d \<le> int (length input)" and ob: "outbuf r = ob0 @ take (nat d) input"
    and far: "0 < d \<longrightarrow> maxlen r + 1 < c"
    by (auto simp: scanInv_def)
  define ch where "ch = input ! nat c"
  from c0 c have i: "index input c = Inr ch" by (simp add: index_def ch_def)
  from c0 c have "ch \<in> set input" by (simp add: ch_def)
  with ff have u: "uint ch < 255" by (auto intro: byte_below_255)
  define ent where "ent = table r ! nat (uint ch)"
  from comp u have t: "index (table r) (uint ch) = Inr ent"
    by (simp add: index_def compiled_def ent_def)
  from u uint_nat[of ch] have "unat ch < 255" by linarith
  with comp have "ent \<in> set (table r)" by (simp add: ent_def compiled_def)
  with comp have s0: "0 \<le> skip ent"
    and cands: "\<forall>n \<in> set (needles ent). n \<in> set ns \<and> int (length n) \<le> maxlen r"
    by (auto simp: compiled_def)
  show ?thesis
  proof (cases "skip ent = 0")
    case True
    have "\<not> matchesAt r input (c + 1) n" if n: "n \<in> set (needles ent)" for n
    proof
      assume m: "matchesAt r input (c + 1) n"
      from n cands have ns: "n \<in> set ns" and ln: "int (length n) \<le> maxlen r" by auto
      have "sublist n (ob0 @ input)"
      proof (cases "int (length n) \<le> c + 1")
        case True
        with matchesAt_occurs[OF m] c0 c have "sublist n input" by simp
        then show ?thesis by (meson sublist_append_leftI sublist_order.order_trans)
      next
        case False
        with ln far have "d \<le> 0" by auto
        with d0 ob have "outbuf r = ob0" by simp
        with False matchesAt_occurs[OF m] c0 c show ?thesis by simp
      qed
      with cl ns show False by (auto simp: clean_def)
    qed
    then have "tryNeedles r input (c + 1) d (needles ent) = Inr (r, c + 1, d)"
      using c0 c by (intro tryNeedles_no_match) auto
    with i t True have "scanStep r input c d = Inr (r, c + 1, d)"
      by (simp add: scanStep_def)
    moreover from inv have "scanInv ns ob0 input r (c + 1) d"
      by (auto simp: scanInv_def)
    ultimately show ?thesis by auto
  next
    case False
    with s0 have sp: "0 < skip ent" by simp
    define ct where "ct = (if c + skip ent - maxlen r - 1 > int (length input)
                            then int (length input) else c + skip ent - maxlen r - 1)"
    have ctl: "ct \<le> int (length input)" by (simp add: ct_def)
    show ?thesis
    proof (cases "ct > d")
      case True
      with d0 ctl have sl: "sliceOf input d ct = Inr (take (nat (ct - d)) (drop (nat d) input))"
        by (simp add: sliceOf_def)
      from i t False True sl have
        "scanStep r input c d =
           Inr (r\<lparr>outbuf := outbuf r @ take (nat (ct - d)) (drop (nat d) input)\<rparr>, c + skip ent, ct)"
        by (simp add: scanStep_def Let_def ct_def)
      moreover have "scanInv ns ob0 input
          (r\<lparr>outbuf := outbuf r @ take (nat (ct - d)) (drop (nat d) input)\<rparr>) (c + skip ent) ct"
      proof -
        from True d0 have "ob0 @ take (nat d) input @ take (nat (ct - d)) (drop (nat d) input)
            = ob0 @ take (nat ct) input"
          using take_take_drop[of d ct input] by simp
        moreover have "maxlen r + 1 < c + skip ent" using True d0 by (simp add: ct_def split: if_splits)
        ultimately show ?thesis
          using comp c0 sp d0 True ctl ob by (simp add: scanInv_def compiled_def)
      qed
      ultimately show ?thesis using sp by auto
    next
      case nc: False
      from i t False nc have "scanStep r input c d = Inr (r, c + skip ent, d)"
        by (simp add: scanStep_def Let_def ct_def)
      moreover from inv sp have "scanInv ns ob0 input r (c + skip ent) d"
        by (auto simp: scanInv_def)
      ultimately show ?thesis using sp by auto
    qed
  qed
qed

lemma clean_scanLoop:
  assumes "compiled ns r" and "0 \<le> offset r"
    and "clean ns (outbuf r @ input)" and "\<forall>b \<in> set input. b \<noteq> 0xFF"
  shows "\<exists>r' c' d'. scanLoop r input (offset r) 0 = Some (Inr (r', c', d')) \<and>
           scanInv ns (outbuf r) input r' c' d' \<and> int (length input) \<le> c'"
proof (rule scanLoop_total[where I = "scanInv ns (outbuf r) input"])
  from assms(1,2) show "scanInv ns (outbuf r) input r (offset r) 0"
    by (simp add: scanInv_def)
next
  fix r1 c d
  assume "scanInv ns (outbuf r) input r1 c d" and "c < int (length input)"
  from clean_scanStep[OF this assms(3,4)]
  show "\<exists>r2 c1 d1. scanStep r1 input c d = Inr (r2, c1, d1)
          \<and> scanInv ns (outbuf r) input r2 c1 d1 \<and> c < c1" .
qed

text \<open>The line-ending loop always returns, and only moves bytes of the chunk over.\<close>

lemma lineFlush_returns:
  assumes "0 \<le> d" and "d \<le> i" and "i \<le> int (length input)"
  shows "\<exists>d'. lineFlush input i d ob = Inr (d', ob @ take (nat (d' - d)) (drop (nat d) input))
           \<and> d \<le> d' \<and> d' \<le> int (length input)"
  using assms
proof (induction "nat (int (length input) - i)" arbitrary: i d ob)
  case 0
  then have "i = int (length input)" by simp
  with 0 show ?case by (subst lineFlush.simps) simp
next
  case (Suc m)
  then have il: "i < int (length input)" and i0: "0 \<le> i" by auto
  from Suc.hyps(2) have m: "m = nat (int (length input) - (i + 1))" by simp
  from il i0 have ix: "index input i = Inr (input ! nat i)" by (simp add: index_def)
  show ?case
  proof (cases "input ! nat i = 0x0D \<or> input ! nat i = 0x0A")
    case False
    from Suc.hyps(1)[OF m Suc.prems(1)] Suc.prems(2) il obtain d' where
      "lineFlush input (i + 1) d ob = Inr (d', ob @ take (nat (d' - d)) (drop (nat d) input))"
      "d \<le> d'" "d' \<le> int (length input)" by auto
    with il ix False show ?thesis by (subst lineFlush.simps) auto
  next
    case True
    let ?seg = "take (nat (i + 1 - d)) (drop (nat d) input)"
    from Suc.prems il have sl: "sliceOf input d (i + 1) = Inr ?seg"
      by (simp add: sliceOf_def)
    from Suc.hyps(1)[OF m, of "i + 1" "ob @ ?seg"] i0 il obtain d' where
      r: "lineFlush input (i + 1) (i + 1) (ob @ ?seg) =
            Inr (d', (ob @ ?seg) @ take (nat (d' - (i + 1))) (drop (nat (i + 1)) input))"
      and b: "i + 1 \<le> d'" "d' \<le> int (length input)" by auto
    from Suc.prems b i0 have "nat (i + 1) = nat (i + 1 - d) + nat d" by auto
    then have dd: "drop (nat (i + 1)) input = drop (nat (i + 1 - d)) (drop (nat d) input)"
      by simp
    have e: "d' - d - (i + 1 - d) = d' - (i + 1)" by simp
    from Suc.prems b have "0 \<le> i + 1 - d" "i + 1 - d \<le> d' - d" by auto
    from take_take_drop[OF this, of "drop (nat d) input"]
    have "?seg @ take (nat (d' - (i + 1))) (drop (nat (i + 1)) input)
            = take (nat (d' - d)) (drop (nat d) input)"
      unfolding e dd[symmetric] .
    with r have "lineFlush input (i + 1) (i + 1) (ob @ ?seg) =
            Inr (d', ob @ take (nat (d' - d)) (drop (nat d) input))" by simp
    with il ix True sl b Suc.prems(2) show ?thesis by (subst lineFlush.simps) auto
  qed
qed

text \<open>
  One \<^verbatim>\<open>Write\<close> on such a stream: it returns, and the bytes written followed by the
  buffer are those of before followed by the chunk.
\<close>

lemma clean_Write:
  assumes comp: "compiled ns r" and off: "0 \<le> offset r"
    and cl: "clean ns (outbuf r @ input)" and ff: "\<forall>b \<in> set input. b \<noteq> 0xFF"
  shows "\<exists>r' out' w. Write r out input = Some (Inr (r', out')) \<and>
           compiled ns r' \<and> 0 \<le> offset r' \<and>
           concat out' = concat out @ w \<and> w @ outbuf r' = outbuf r @ input"
proof -
  from clean_scanLoop[OF assms] obtain r1 c1 d1 where
    s: "scanLoop r input (offset r) 0 = Some (Inr (r1, c1, d1))" and
    inv: "scanInv ns (outbuf r) input r1 c1 d1" and c1: "int (length input) \<le> c1"
    by blast
  from inv have comp1: "compiled ns r1" and d1: "0 \<le> d1" "d1 \<le> int (length input)"
    and ob1: "outbuf r1 = outbuf r @ take (nat d1) input"
    by (auto simp: scanInv_def)
  from lineFlush_returns[of d1 d1 input "outbuf r1"] d1 obtain d2 where
    l: "lineFlush input d1 d1 (outbuf r1) =
          Inr (d2, outbuf r1 @ take (nat (d2 - d1)) (drop (nat d1) input))"
    and d2: "d1 \<le> d2" "d2 \<le> int (length input)" by auto
  define ob2 where "ob2 = outbuf r1 @ take (nat (d2 - d1)) (drop (nat d1) input)"
  from ob1 d1 d2 have ob2: "ob2 = outbuf r @ take (nat d2) input"
    using take_take_drop[of d1 d2 input] by (simp add: ob2_def)
  from s l have cf: "confirm r input = Some (Inr (r1\<lparr>outbuf := ob2\<rparr>, c1, d2))"
    by (simp add: confirm_def ob2_def)
  have comp2: "compiled ns (r1\<lparr>outbuf := ob2\<rparr>)" using comp1 by (simp add: compiled_def)
  show ?thesis
  proof (cases "d2 > 0")
    case True
    with d2 have "sliceOf input d2 (int (length input)) = Inr (drop (nat d2) input)"
      by (simp add: sliceOf_def)
    with True cf have "Write r out input =
        Some (Inr (r1\<lparr>outbuf := drop (nat d2) input, offset := c1 - int (length input)\<rparr>,
                   out @ [ob2]))"
      by (simp add: Write_def pushDown_def)
    moreover have "compiled ns (r1\<lparr>outbuf := drop (nat d2) input, offset := c1 - int (length input)\<rparr>)"
      using comp1 by (simp add: compiled_def)
    moreover have "concat (out @ [ob2]) = concat out @ ob2" by simp
    moreover have "ob2 @ drop (nat d2) input = outbuf r @ input" by (simp add: ob2)
    ultimately show ?thesis using c1 by simp
  next
    case False
    with d1 d2 have z: "d2 = 0" by simp
    with ob2 have "ob2 = outbuf r" by simp
    with z cf have "Write r out input =
        Some (Inr (r1\<lparr>outbuf := outbuf r @ input, offset := c1 - int (length input)\<rparr>, out))"
      by (simp add: Write_def pushDown_def)
    moreover have "compiled ns (r1\<lparr>outbuf := outbuf r @ input, offset := c1 - int (length input)\<rparr>)"
      using comp1 by (simp add: compiled_def)
    ultimately show ?thesis using c1 by simp
  qed
qed

lemma clean_sublist:
  assumes "clean ns s" and "s = u @ t @ v"
  shows "clean ns t"
proof -
  from assms(2) have "sublist t s" unfolding sublist_def by blast
  with assms(1) show ?thesis
    unfolding clean_def by (meson sublist_order.order_trans)
qed

lemma clean_writeChunks:
  assumes "compiled ns r" and "0 \<le> offset r"
    and "clean ns (outbuf r @ concat chunks)" and "\<forall>b \<in> set (concat chunks). b \<noteq> 0xFF"
  shows "\<exists>r' out'. writeChunks r out chunks = Some (Inr (r', out')) \<and>
           concat out' @ outbuf r' = concat out @ outbuf r @ concat chunks"
  using assms
proof (induction chunks arbitrary: r out)
  case Nil
  then show ?case by simp
next
  case (Cons chunk chunks)
  have "outbuf r @ concat (chunk # chunks) = [] @ (outbuf r @ chunk) @ concat chunks" by simp
  from clean_sublist[OF Cons.prems(3) this] have c1: "clean ns (outbuf r @ chunk)" .
  from Cons.prems(4) have f1: "\<forall>b \<in> set chunk. b \<noteq> 0xFF"
    and f2: "\<forall>b \<in> set (concat chunks). b \<noteq> 0xFF" by auto
  from clean_Write[OF Cons.prems(1,2) c1 f1, of out] obtain r1 out1 w where
    w: "Write r out chunk = Some (Inr (r1, out1))" and comp1: "compiled ns r1"
    and off1: "0 \<le> offset r1" and o1: "concat out1 = concat out @ w"
    and t1: "w @ outbuf r1 = outbuf r @ chunk" by blast
  have "outbuf r @ concat (chunk # chunks) = (outbuf r @ chunk) @ concat chunks" by simp
  also have "\<dots> = w @ (outbuf r1 @ concat chunks) @ []" unfolding t1[symmetric] by simp
  finally have c2: "clean ns (outbuf r1 @ concat chunks)" by (rule clean_sublist[OF Cons.prems(3)])
  from Cons.IH[OF comp1 off1 c2 f2, of out1] obtain r' out' where
    "writeChunks r1 out1 chunks = Some (Inr (r', out'))"
    "concat out' @ outbuf r' = concat out1 @ outbuf r1 @ concat chunks" by blast
  moreover have "concat out1 @ outbuf r1 @ concat chunks
      = concat out @ outbuf r @ concat (chunk # chunks)"
  proof -
    have "concat out1 @ outbuf r1 @ concat chunks = concat out @ (w @ outbuf r1) @ concat chunks"
      by (simp add: o1)
    then show ?thesis unfolding t1 by simp
  qed
  ultimately show ?case using w by simp
qed

text \<open>
  Identity on clean input, for the inputs on which the run does not panic: a non-empty
  set of needles that \<^verbatim>\<open>NewRedactor\<close> accepts, and no byte \<^verbatim>\<open>0xFF\<close> in the stream.
\<close>

lemma clean_stream_identity:
  assumes "NewRedactor repl ns = Inr r0" and "ns \<noteq> []"
    and "clean ns (concat chunks)" and "\<forall>b \<in> set (concat chunks). b \<noteq> 0xFF"
  shows "redactStream repl ns chunks = Some (Inr (concat chunks))"
proof -
  from assms(3) have ne: "\<forall>n \<in> set ns. n \<noteq> []" by (auto simp: clean_def)
  from NewRedactor_compiled[OF assms(1,2) ne] have
    c: "compiled ns r0" "0 \<le> offset r0" and ob: "outbuf r0 = []" by auto
  from assms(3) ob have cl: "clean ns (outbuf r0 @ concat chunks)" by simp
  from clean_writeChunks[OF c cl assms(4), of "[]"] ob obtain r' out' where
    "writeChunks r0 [] chunks = Some (Inr (r', out'))"
    "concat out' @ outbuf r' = concat chunks" by auto
  with assms(1) show ?thesis
    by (simp add: redactStream_def writeStream_def written_def thenSync_def callSync_def Sync_def)
qed

section \<open>No slice expression of \<^verbatim>\<open>Write\<close> is out of range\<close>

text \<open>
  Whatever the Redactor and the chunk, the bounds of every slice expression are in
  range, so the only panic of \<^verbatim>\<open>Write\<close> is that of an index expression:
  \<^verbatim>\<open>input[cursor]\<close> with a negative cursor, or \<^verbatim>\<open>redactor.table[ch]\<close>.
\<close>

lemma redactMatch_no_slice_panic:
  assumes "candidateAt r input c s = Inr (Some n)" and "0 \<le> d" and "s \<le> c"
    and "c \<le> int (length input)"
  shows "\<exists>st. redactMatch r input c d s = Inr st"
proof (cases "s < 0")
  case True
  with assms(1) have "- s \<le> int (length (outbuf r))"
    by (auto simp: candidateAt_def bindE_eq_Inr split: if_splits)
  with True show ?thesis by (simp add: redactMatch_def sliceOf_def)
next
  case False
  with assms(2,3,4) show ?thesis by (simp add: redactMatch_def sliceOf_def)
qed

lemma tryNeedles_no_slice_panic:
  assumes "0 \<le> c" and "c \<le> int (length input)" and "0 \<le> d"
  shows "\<exists>st. tryNeedles r input c d cands = Inr st"
proof (induction cands)
  case Nil
  then show ?case by simp
next
  case (Cons n cands)
  from candidateAt_returns[OF assms(1,2), of "c - int (length n)" r]
  obtain cand where c: "candidateAt r input c (c - int (length n)) = Inr cand" by auto
  show ?case
  proof (cases "cand = Some n")
    case True
    with c redactMatch_no_slice_panic[of r input c "c - int (length n)" n d] assms
    show ?thesis by (simp add: Let_def)
  next
    case False
    with c Cons.IH show ?thesis by (simp add: Let_def)
  qed
qed

lemma scanStep_panic:
  assumes "scanStep r input c d = Inl e" and "0 \<le> d" and "d \<le> int (length input)"
  shows "e = IndexOutOfRange"
proof (cases "index input c")
  case (Inl e')
  with assms(1) show ?thesis by (auto simp: scanStep_def index_def split: if_splits)
next
  case ch: (Inr ch)
  then have c: "0 \<le> c" "c < int (length input)" by (auto simp: index_eq_Inr)
  show ?thesis
  proof (cases "index (table r) (uint ch)")
    case (Inl e')
    with ch assms(1) show ?thesis by (auto simp: scanStep_def index_def split: if_splits)
  next
    case (Inr ent)
    show ?thesis
    proof (cases "skip ent = 0")
      case True
      from tryNeedles_no_slice_panic[of "c + 1" input d r "needles ent"] c assms(2)
      obtain st where "tryNeedles r input (c + 1) d (needles ent) = Inr st" by auto
      with ch Inr True assms(1) show ?thesis by (simp add: scanStep_def)
    next
      case False
      with ch Inr assms show ?thesis
        by (auto simp: scanStep_def Let_def sliceOf_def split: if_splits)
    qed
  qed
qed

lemma scanStep_doneTo_bounds:
  assumes "scanStep r input c d = Inr (r1, c1, d1)" and "0 \<le> d" and "d \<le> int (length input)"
  shows "0 \<le> d1 \<and> d1 \<le> int (length input)"
proof (cases "index input c")
  case (Inl e')
  with assms(1) show ?thesis by (simp add: scanStep_def)
next
  case ch: (Inr ch)
  then have c: "0 \<le> c" "c < int (length input)" by (auto simp: index_eq_Inr)
  show ?thesis
  proof (cases "index (table r) (uint ch)")
    case (Inl e')
    with ch assms(1) show ?thesis by (simp add: scanStep_def)
  next
    case (Inr ent)
    show ?thesis
    proof (cases "skip ent = 0")
      case True
      with ch Inr assms(1)
      have "tryNeedles r input (c + 1) d (needles ent) = Inr (r1, c1, d1)"
        by (simp add: scanStep_def)
      from tryNeedles_cases[OF this] c assms(2,3) show ?thesis by auto
    next
      case False
      with ch Inr assms show ?thesis
        by (auto simp: scanStep_def Let_def bindE_eq_Inr split: if_splits)
    qed
  qed
qed

text \<open>A panic of the loop is the panic of one of its iterations.\<close>

lemma scanLoop_panic:
  assumes run: "scanLoop redactor input cursor doneTo = Some (Inl e)"
    and init: "I redactor cursor doneTo"
    and step: "\<And>r c d r1 c1 d1. I r c d \<Longrightarrow> c < int (length input) \<Longrightarrow>
                 scanStep r input c d = Inr (r1, c1, d1) \<Longrightarrow> I r1 c1 d1"
  shows "\<exists>r c d. I r c d \<and> scanStep r input c d = Inl e"
proof -
  define P where "P = (\<lambda>r inp c d (y :: error + Redactor \<times> int \<times> int).
      inp = input \<longrightarrow> I r c d \<longrightarrow> y = Inl e \<longrightarrow> (\<exists>r c d. I r c d \<and> scanStep r input c d = Inl e))"
  have "P redactor input cursor doneTo (Inl e)"
  proof (rule scanLoop.raw_induct[OF _ run])
    fix scan' r inp c d y
    assume IH: "\<And>r inp c d y. scan' r inp c d = Some y \<Longrightarrow> P r inp c d y"
      and body: "(if c < int (length inp)
                  then case scanStep r inp c d of
                         Inl e \<Rightarrow> Some (Inl e)
                       | Inr st \<Rightarrow> scan' (fst st) inp (fst (snd st)) (snd (snd st))
                  else Some (Inr (r, c, d))) = Some y"
    show "P r inp c d y"
      unfolding P_def
    proof (intro impI)
      assume inp: "inp = input" and I: "I r c d" and y: "y = Inl e"
      show "\<exists>r c d. I r c d \<and> scanStep r input c d = Inl e"
      proof (cases "c < int (length inp)")
        case False
        with body y show ?thesis by simp
      next
        case True
        show ?thesis
        proof (cases "scanStep r inp c d")
          case (Inl e')
          with True body y I inp show ?thesis by auto
        next
          case (Inr st)
          obtain r1 c1 d1 where st: "st = (r1, c1, d1)" by (cases st) auto
          from True Inr st body have "scan' r1 inp c1 d1 = Some y" by simp
          from IH[OF this] have "P r1 inp c1 d1 y" .
          moreover have "I r1 c1 d1"
            using step[OF I] True Inr st inp by simp
          ultimately show ?thesis using inp y by (simp add: P_def)
        qed
      qed
    qed
  qed
  with init show ?thesis by (simp add: P_def)
qed

lemma Write_panic_is_index_panic:
  assumes "Write redactor out input = Some (Inl e)"
  shows "e = IndexOutOfRange"
proof (cases "scanLoop redactor input (offset redactor) 0")
  case None
  with assms show ?thesis by (simp add: Write_def confirm_def)
next
  case (Some res)
  show ?thesis
  proof (cases res)
    case (Inl e')
    with Some assms have e: "e' = e" by (simp add: Write_def confirm_def)
    define I where "I = (\<lambda>(r :: Redactor) (c :: int) d. 0 \<le> d \<and> d \<le> int (length input))"
    from Some Inl e have "scanLoop redactor input (offset redactor) 0 = Some (Inl e)" by simp
    from scanLoop_panic[OF this, of I]
    obtain r c d where "I r c d" and "scanStep r input c d = Inl e"
      using scanStep_doneTo_bounds by (fastforce simp: I_def)
    then show ?thesis using scanStep_panic by (simp add: I_def)
  next
    case (Inr st)
    obtain r1 c1 d1 where st: "st = (r1, c1, d1)" by (cases st) auto
    from Some Inr st have run: "scanLoop redactor input (offset redactor) 0 = Some (Inr (r1, c1, d1))"
      by simp
    have "(0 \<le> d1 \<and> d1 \<le> int (length input)) \<and> int (length input) \<le> c1"
    proof (rule scanLoop_invariant[OF run, of "\<lambda>r c d. 0 \<le> d \<and> d \<le> int (length input)"])
      show "0 \<le> (0 :: int) \<and> 0 \<le> int (length input)" by simp
    next
      fix r c d r' c' d'
      assume "0 \<le> d \<and> d \<le> int (length input)" and "scanStep r input c d = Inr (r', c', d')"
      then show "0 \<le> d' \<and> d' \<le> int (length input)"
        using scanStep_doneTo_bounds by blast
    qed
    then have d1: "0 \<le> d1" "d1 \<le> int (length input)" by auto
    from lineFlush_returns[OF d1(1) order_refl d1(2), of "outbuf r1"]
    obtain d2 ob where lf: "lineFlush input d1 d1 (outbuf r1) = Inr (d2, ob)"
      and d2: "d1 \<le> d2" "d2 \<le> int (length input)" by blast
    with run d1 assms show ?thesis
      by (simp add: Write_def confirm_def pushDown_def sliceOf_def split: if_splits)
  qed
qed

section \<open>Scanning a chunk and scanning it with more input behind it\<close>

lemma index_append_left: "c < int (length x) \<Longrightarrow> index (x @ y) c = index x c"
  by (auto simp: index_def nth_append)

lemma index_append_right:
  assumes "c' = c + int (length x)" and "0 \<le> c"
  shows "index (x @ y) c' = index y c"
  using assms by (auto simp: index_def nth_append nat_add_distrib)

lemma sliceOf_append_left:
  "hi \<le> int (length x) \<Longrightarrow> sliceOf (x @ y) lo hi = sliceOf x lo hi"
  by (auto simp: sliceOf_def)

lemma sliceOf_append_right:
  assumes "lo' = lo + int (length x)" and "hi' = hi + int (length x)" and "0 \<le> lo"
  shows "sliceOf (x @ y) lo' hi' = sliceOf y lo hi"
  using assms by (auto simp: sliceOf_def nat_add_distrib)

lemma candidateAt_append_left:
  "c \<le> int (length x) \<Longrightarrow> candidateAt r (x @ y) c s = candidateAt r x c s"
  by (simp add: candidateAt_def sliceOf_append_left)

lemma redactMatch_append_left:
  "s \<le> int (length x) \<Longrightarrow> redactMatch r (x @ y) c d s = redactMatch r x c d s"
  by (simp add: redactMatch_def sliceOf_append_left)

lemma tryNeedles_append_left:
  assumes "c \<le> int (length x)"
  shows "tryNeedles r (x @ y) c d cands = tryNeedles r x c d cands"
proof (induction cands)
  case Nil
  then show ?case by simp
next
  case (Cons n cands)
  have s: "c - int (length n) \<le> int (length x)" using assms by simp
  show ?case
    by (simp add: candidateAt_append_left[OF assms] redactMatch_append_left[OF s] Cons.IH Let_def
        cong: if_cong)
qed

lemma scanStep_append_left:
  assumes "compiled ns r" and "c < int (length x)"
  shows "scanStep r (x @ y) c d = scanStep r x c d"
proof (cases "index x c")
  case (Inl e)
  then show ?thesis by (simp add: scanStep_def index_append_left[OF assms(2)])
next
  case ch: (Inr ch)
  show ?thesis
  proof (cases "index (table r) (uint ch)")
    case (Inl e)
    with ch show ?thesis by (simp add: scanStep_def index_append_left[OF assms(2)])
  next
    case (Inr ent)
    then have "ent \<in> set (table r)" by (rule index_in_set)
    with assms(1) have sk: "skip ent \<le> maxlen r" by (auto simp: compiled_def)
    let ?ct = "c + skip ent - maxlen r - 1"
    from sk assms(2) have ct: "?ct \<le> int (length x)" "\<not> ?ct > int (length x)"
      "\<not> ?ct > int (length x) + int (length y)" by auto
    have c1: "c + 1 \<le> int (length x)" using assms(2) by simp
    show ?thesis
      using ch Inr ct
      by (simp add: scanStep_def index_append_left[OF assms(2)] Let_def
          sliceOf_append_left[OF ct(1)] tryNeedles_append_left[OF c1])
  qed
qed

text \<open>The scan of a chunk is the first part of the scan of the chunk with more behind it.\<close>

lemma scanLoop_append_left:
  assumes run: "scanLoop r x c d = Some (Inr (r1, c1, d1))" and comp: "compiled ns r"
  shows "scanLoop r (x @ y) c d = scanLoop r1 (x @ y) c1 d1 \<and> compiled ns r1"
proof -
  define P where "P = (\<lambda>r inp c d (res :: error + Redactor \<times> int \<times> int).
      inp = x \<longrightarrow> compiled ns r \<longrightarrow> res = Inr (r1, c1, d1) \<longrightarrow>
        scanLoop r (x @ y) c d = scanLoop r1 (x @ y) c1 d1 \<and> compiled ns r1)"
  have "P r x c d (Inr (r1, c1, d1))"
  proof (rule scanLoop.raw_induct[OF _ run])
    fix scan' r inp c d res
    assume IH: "\<And>r inp c d res. scan' r inp c d = Some res \<Longrightarrow> P r inp c d res"
      and body: "(if c < int (length inp)
                  then case scanStep r inp c d of
                         Inl e \<Rightarrow> Some (Inl e)
                       | Inr st \<Rightarrow> scan' (fst st) inp (fst (snd st)) (snd (snd st))
                  else Some (Inr (r, c, d))) = Some res"
    show "P r inp c d res"
      unfolding P_def
    proof (intro impI)
      assume inp: "inp = x" and cr: "compiled ns r" and res: "res = Inr (r1, c1, d1)"
      show "scanLoop r (x @ y) c d = scanLoop r1 (x @ y) c1 d1 \<and> compiled ns r1"
      proof (cases "c < int (length x)")
        case False
        with body inp res cr show ?thesis by auto
      next
        case True
        show ?thesis
        proof (cases "scanStep r x c d")
          case (Inl e)
          with True body inp res show ?thesis by auto
        next
          case (Inr st)
          obtain r2 c2 d2 where st: "st = (r2, c2, d2)" by (cases st) auto
          from True Inr st body inp have "scan' r2 x c2 d2 = Some res" by simp
          from IH[OF this] have p: "P r2 x c2 d2 res" .
          from scanStep_cases[OF Inr[unfolded st]] cr have c2: "compiled ns r2"
            by (auto simp: compiled_def)
          from True have "c < int (length (x @ y))" by simp
          moreover from Inr st scanStep_append_left[OF cr True]
          have "scanStep r (x @ y) c d = Inr (r2, c2, d2)" by simp
          ultimately have "scanLoop r (x @ y) c d = scanLoop r2 (x @ y) c2 d2"
            by (rule scanLoop_step)
          with p c2 res show ?thesis by (simp add: P_def)
        qed
      qed
    qed
  qed
  with comp show ?thesis by (simp add: P_def)
qed

section \<open>One call for the whole stream against one call per chunk\<close>

subsection \<open>Candidates that reach before the chunk\<close>

lemma matchesAt_before_chunk:
  assumes m: "matchesAt r input (c + 1) n" and c: "0 \<le> c" "c < int (length input)"
    and l: "c + 1 < int (length n)"
  shows "\<exists>u. u \<noteq> [] \<and> suffix u (outbuf r) \<and> n = u @ take (nat (c + 1)) input"
proof -
  let ?k = "nat (- (c + 1 - int (length n)) - 1)"
  from m l have n: "n = drop ?k (outbuf r) @ take (nat (c + 1)) input"
    by (auto simp: matchesAt_def candidateAt_def bindE_eq_Inr sliceOf_eq_Inr split: if_splits)
  from c have "length (take (nat (c + 1)) input) = nat (c + 1)" by simp
  with n l c have "drop ?k (outbuf r) \<noteq> []"
    by (metis append_Nil int_nat_eq less_irrefl zero_le_one add_nonneg_nonneg)
  moreover have "suffix (drop ?k (outbuf r)) (outbuf r)" by (rule suffix_drop)
  ultimately show ?thesis using n by blast
qed

text \<open>
  In a state of the scan such a candidate can only equal its needle while nothing has been
  confirmed, so against the buffer the call started with.
\<close>

lemma staged_before_chunk:
  assumes st: "staged ns ob0 input r c d" and c: "c < int (length input)"
    and n: "n \<in> set ns" "int (length n) \<le> maxlen r" and l: "c + 1 < int (length n)"
    and free: "infixFree ns" and m: "matchesAt r input (c + 1) n"
  shows "\<exists>u. u \<noteq> [] \<and> suffix u ob0 \<and> n = u @ take (nat (c + 1)) input"
proof -
  from st have c0: "0 \<le> c" by (simp add: staged_def)
  from matchesAt_before_chunk[OF m c0 c l] obtain u where
    u: "u \<noteq> []" "suffix u (outbuf r)" "n = u @ take (nat (c + 1)) input" by blast
  have "d = 0"
  proof (rule ccontr)
    assume "d \<noteq> 0"
    with st have d: "0 < d" by (simp add: staged_def)
    with st n l obtain m where mm: "m \<in> set ns" "sublist m (take (nat c) input)"
      by (auto simp: staged_def)
    have "take (nat c) input = take (nat c) (take (nat (c + 1)) input)" using c0 by simp
    then have "sublist (take (nat c) input) (take (nat (c + 1)) input)"
      by (metis sublist_take)
    moreover have "sublist (take (nat (c + 1)) input) n" unfolding u(3) by simp
    ultimately have "sublist m n" using mm(2) by (meson sublist_order.order_trans)
    with free mm(1) n(1) have "m = n" by (auto simp: infixFree_def)
    moreover from mm(2) have "length m \<le> nat c"
      by (metis sublist_length_le length_take min.cobounded2 le_trans)
    ultimately show False using l c0 by simp
  qed
  with st have "outbuf r = ob0" by (simp add: staged_def)
  with u show ?thesis by blast
qed

lemma straddles_iff:
  "straddles n u v \<longleftrightarrow> (\<exists>k \<in> {1..<length n}. suffix (take k n) u \<and> prefix (drop k n) v)"
  by (simp add: straddles_def list_ex_iff)

lemma suffix_prefix_straddles:
  assumes "u \<noteq> []" and "v \<noteq> []" and "suffix u x" and "prefix v y"
  shows "straddles (u @ v) x y"
proof -
  from assms(1,2) have "length u \<in> {1..<length (u @ v)}"
    by (cases u; cases v) auto
  moreover have "suffix (take (length u) (u @ v)) x \<and> prefix (drop (length u) (u @ v)) y"
    using assms(3,4) by simp
  ultimately show ?thesis unfolding straddles_iff by blast
qed

subsection \<open>Staging leaves the output of a call as it is\<close>

lemma stage_keeps:
  assumes "0 \<le> d" and "d \<le> e"
  shows "take (nat (e - d)) (drop (nat d) w) @ drop (nat e) w = drop (nat d) w"
proof -
  from assms have a: "nat (e - d) + nat d = nat e" by simp
  have "take (nat (e - d)) (drop (nat d) w) @ drop (nat (e - d)) (drop (nat d) w) = drop (nat d) w"
    by (rule append_take_drop_id)
  then show ?thesis by (simp add: a)
qed

lemma drop_append_right:
  assumes "e = f + int (length x)" and "0 \<le> f"
  shows "drop (nat e) (x @ y) = drop (nat f) y"
proof -
  from assms have "nat e = length x + nat f" by simp
  then show ?thesis by simp
qed

lemma virtual_output_cancel:
  assumes v: "pa @ drop (nat dA) (x @ y) = sunk @ pb @ drop (nat dB) y"
    and "0 \<le> dA" and "dA \<le> eA" and "0 \<le> dB" and "dB \<le> eB"
    and e: "eA = eB + int (length x)"
  shows "pa @ take (nat (eA - dA)) (drop (nat dA) (x @ y))
           = sunk @ pb @ take (nat (eB - dB)) (drop (nat dB) y)"
proof -
  from assms have t: "drop (nat eA) (x @ y) = drop (nat eB) y"
    by (intro drop_append_right) auto
  have "(pa @ take (nat (eA - dA)) (drop (nat dA) (x @ y))) @ drop (nat eA) (x @ y)
          = pa @ drop (nat dA) (x @ y)"
    using stage_keeps[OF assms(2,3), of "x @ y"] by simp
  also have "\<dots> = sunk @ pb @ drop (nat dB) y" by (rule v)
  also have "\<dots> = (sunk @ pb @ take (nat (eB - dB)) (drop (nat dB) y)) @ drop (nat eB) y"
    using stage_keeps[OF assms(4,5), of y] by simp
  finally show ?thesis unfolding t by simp
qed

lemma staged_mono:
  assumes "staged ns ob0 input r c d" and "c \<le> c'"
  shows "staged ns ob0 input r c' d"
proof -
  have "sublist n (take (nat c') input)" if "sublist n (take (nat c) input)" for n
  proof -
    from assms(2) have "take (nat c) input = take (nat c) (take (nat c') input)"
      by (simp add: min_def)
    then have "sublist (take (nat c) input) (take (nat c') input)" by (metis sublist_take)
    with that show ?thesis by (meson sublist_order.order_trans)
  qed
  with assms show ?thesis unfolding staged_def by fastforce
qed

lemma staged_outbuf:
  assumes "staged ns ob0 input r c d" and "0 < d'" and "d' \<le> int (length input)"
    and "c \<le> c'" and "maxlen r + 1 < c' \<or> (\<exists>n \<in> set ns. sublist n (take (nat c') input))"
  shows "staged ns ob0 input (r\<lparr>outbuf := ob\<rparr>) c' d'"
  using assms unfolding staged_def compiled_def by auto

subsection \<open>The two scans agree on every candidate\<close>

lemma matchesAt_in_chunk:
  assumes "int (length n) \<le> c"
  shows "matchesAt r input c n \<longleftrightarrow>
           c \<le> int (length input) \<and> n = take (length n) (drop (nat (c - int (length n))) input)"
  using assms
  by (auto simp: matchesAt_def candidateAt_def bindE_eq_Inr sliceOf_eq_Inr)

lemma matchesAt_lockstep:
  assumes sA: "staged ns [] (x @ y) rA cA dA" and sB: "staged ns obk y rB cB dB"
    and cA: "cA = cB + int (length x)" and cB: "cB < int (length y)"
    and n: "n \<in> set ns" "int (length n) \<le> maxlen rA" "maxlen rA = maxlen rB" "n \<noteq> []"
    and free: "infixFree ns" and nos: "\<forall>n \<in> set ns. \<not> straddles n x y" and suf: "suffix obk x"
  shows "(matchesAt rA (x @ y) (cA + 1) n \<longleftrightarrow> matchesAt rB y (cB + 1) n) \<and>
         (matchesAt rB y (cB + 1) n \<longrightarrow> int (length n) \<le> cB + 1)"
proof (cases "int (length n) \<le> cB + 1")
  case True
  let ?s = "cB + 1 - int (length n)"
  from True have s: "0 \<le> ?s" by simp
  have "sliceOf (x @ y) (cA + 1 - int (length n)) (cA + 1) = sliceOf y ?s (cB + 1)"
    using cA s by (intro sliceOf_append_right) auto
  then have "candidateAt rA (x @ y) (cA + 1) (cA + 1 - int (length n))
             = candidateAt rB y (cB + 1) ?s"
    using s cA by (simp add: candidateAt_def)
  with True show ?thesis by (simp add: matchesAt_def)
next
  case False
  from sB have cB0: "0 \<le> cB" by (simp add: staged_def)
  from sA have cA0: "0 \<le> cA" by (simp add: staged_def)
  have lB: "cB + 1 < int (length n)" using False by simp
  have B: "\<not> matchesAt rB y (cB + 1) n"
  proof
    assume "matchesAt rB y (cB + 1) n"
    from staged_before_chunk[OF sB cB n(1) _ lB free this] n(2,3) obtain u where
      u: "u \<noteq> []" "suffix u obk" "n = u @ take (nat (cB + 1)) y" by auto
    from cB0 cB have "take (nat (cB + 1)) y \<noteq> []" by auto
    moreover have "prefix (take (nat (cB + 1)) y) y" by (rule take_is_prefix)
    moreover from u(2) suf have "suffix u x" by (rule suffix_order.order_trans)
    ultimately have "straddles n x y" unfolding u(3) using u(1)
      by (intro suffix_prefix_straddles)
    with nos n(1) show False by auto
  qed
  have A: "\<not> matchesAt rA (x @ y) (cA + 1) n"
  proof
    assume m: "matchesAt rA (x @ y) (cA + 1) n"
    show False
    proof (cases "int (length n) \<le> cA + 1")
      case False
      then have "cA + 1 < int (length n)" by simp
      from staged_before_chunk[OF sA _ n(1,2) this free m] cA cB
      show False by auto
    next
      case True
      let ?s = "nat (cA + 1 - int (length n))"
      from m True have e: "n = take (length n) (drop ?s (x @ y))"
        by (simp add: matchesAt_in_chunk)
      from lB cA True cA0 have sx: "?s < length x" by auto
      define u where "u = drop ?s x"
      define v where "v = take (length n - (length x - ?s)) y"
      from sx have un: "u \<noteq> []" by (simp add: u_def)
      from e sx have nuv: "n = take (length n) u @ v"
        by (simp add: u_def v_def)
      from lB cA True cA0 cB0 have "length u < length n"
        by (auto simp: u_def)
      with nuv have nuv': "n = u @ v" by simp
      with \<open>length u < length n\<close> have vn: "v \<noteq> []" by auto
      have "suffix u x" unfolding u_def by (rule suffix_drop)
      moreover have "prefix v y" unfolding v_def by (rule take_is_prefix)
      ultimately have "straddles n x y"
        using un vn suffix_prefix_straddles[of u v x y] nuv' by simp
      with nos n(1) show False by auto
    qed
  qed
  from A B False show ?thesis by simp
qed

subsection \<open>One iteration in a state of the scan\<close>

lemma scanStep_skip_staged:
  assumes st: "staged ns ob0 input r c d"
    and ch: "index input c = Inr ch" and ent: "index (table r) (uint ch) = Inr ent"
    and sk: "skip ent \<noteq> 0"
  shows "\<exists>ob. scanStep r input c d
              = Inr (r\<lparr>outbuf := ob\<rparr>, c + skip ent,
                     max d (min (c + skip ent - maxlen r - 1) (int (length input)))) \<and>
           ob @ drop (nat (max d (min (c + skip ent - maxlen r - 1) (int (length input))))) input
              = outbuf r @ drop (nat d) input \<and>
           staged ns ob0 input (r\<lparr>outbuf := ob\<rparr>) (c + skip ent)
              (max d (min (c + skip ent - maxlen r - 1) (int (length input)))) \<and>
           c < c + skip ent"
proof -
  define ct where "ct = min (c + skip ent - maxlen r - 1) (int (length input))"
  have ct': "(if c + skip ent - maxlen r - 1 > int (length input)
              then int (length input) else c + skip ent - maxlen r - 1) = ct"
    by (simp add: ct_def min_def)
  from st have d0: "0 \<le> d" and dl: "d \<le> int (length input)" by (auto simp: staged_def)
  from ent have "ent \<in> set (table r)" by (rule index_in_set)
  with st sk have sp: "0 < skip ent" by (auto simp: staged_def compiled_def)
  show ?thesis
  proof (cases "ct > d")
    case True
    let ?ob = "outbuf r @ take (nat (ct - d)) (drop (nat d) input)"
    from True d0 have sl: "sliceOf input d ct = Inr (take (nat (ct - d)) (drop (nat d) input))"
      by (simp add: sliceOf_def ct_def)
    from ch ent sk True sl have "scanStep r input c d = Inr (r\<lparr>outbuf := ?ob\<rparr>, c + skip ent, ct)"
      by (simp add: scanStep_def Let_def ct')
    moreover have "?ob @ drop (nat ct) input = outbuf r @ drop (nat d) input"
      using stage_keeps[of d ct input] d0 True by simp
    moreover have "staged ns ob0 input (r\<lparr>outbuf := ?ob\<rparr>) (c + skip ent) ct"
    proof (rule staged_outbuf[OF st])
      from True d0 show "0 < ct" by simp
      show "ct \<le> int (length input)" by (simp add: ct_def)
      from sp show "c \<le> c + skip ent" by simp
      from True d0 have "maxlen r + 1 < c + skip ent" by (simp add: ct_def)
      then show "maxlen r + 1 < c + skip ent \<or>
          (\<exists>n \<in> set ns. sublist n (take (nat (c + skip ent)) input))" ..
    qed
    moreover from True have "max d ct = ct" by simp
    ultimately show ?thesis using sp unfolding ct_def[symmetric] by auto
  next
    case False
    from ch ent sk False have "scanStep r input c d = Inr (r, c + skip ent, d)"
      by (simp add: scanStep_def Let_def ct')
    moreover from False have "max d ct = d" by simp
    moreover have "staged ns ob0 input r (c + skip ent) d"
      using staged_mono[OF st] sp by simp
    moreover have "r\<lparr>outbuf := outbuf r\<rparr> = r" by simp
    ultimately show ?thesis using sp unfolding ct_def[symmetric]
      by (intro exI[of _ "outbuf r"]) simp
  qed
qed

lemma redactMatch_staged:
  assumes st: "staged ns ob0 input r c d" and c: "c < int (length input)"
    and n: "n \<in> set ns" "int (length n) \<le> c + 1" and m: "matchesAt r input (c + 1) n"
  shows "\<exists>ob. redactMatch r input (c + 1) d (c + 1 - int (length n))
              = Inr (r\<lparr>outbuf := ob @ replacement r\<rparr>, c + 1 + (minlen r - 1), c + 1) \<and>
           ob = outbuf r @ take (nat (max d (c + 1 - int (length n)) - d)) (drop (nat d) input) \<and>
           staged ns ob0 input (r\<lparr>outbuf := ob @ replacement r\<rparr>) (c + 1 + (minlen r - 1)) (c + 1) \<and>
           c < c + 1 + (minlen r - 1)"
proof -
  let ?s = "c + 1 - int (length n)"
  from st have d0: "0 \<le> d" and c0: "0 \<le> c" and ml: "1 \<le> minlen r"
    by (auto simp: staged_def compiled_def)
  from n(2) have s0: "0 \<le> ?s" by simp
  define ob where "ob = outbuf r @ take (nat (max d ?s - d)) (drop (nat d) input)"
  have r: "redactMatch r input (c + 1) d ?s
             = Inr (r\<lparr>outbuf := ob @ replacement r\<rparr>, c + 1 + (minlen r - 1), c + 1)"
  proof (cases "?s > d")
    case True
    with d0 c have "sliceOf input d ?s = Inr (take (nat (?s - d)) (drop (nat d) input))"
      by (simp add: sliceOf_def)
    moreover from True have "max d ?s = ?s" by simp
    ultimately show ?thesis using True s0 by (simp add: redactMatch_def ob_def)
  next
    case False
    then have "max d ?s = d" by simp
    with False s0 show ?thesis by (simp add: redactMatch_def ob_def)
  qed
  from m n(2) have e: "n = take (length n) (drop (nat ?s) input)"
    by (simp add: matchesAt_in_chunk)
  have "sublist n (take (nat (c + 1 + (minlen r - 1))) input)"
  proof -
    from n(2) c0 have k: "nat ?s + length n = nat (c + 1)" by simp
    have "take (nat (c + 1)) input
            = take (nat ?s) input @ take (length n) (drop (nat ?s) input)"
      unfolding k[symmetric] by (simp add: take_add)
    with e have "take (nat (c + 1)) input = take (nat ?s) input @ n @ []" by simp
    then have "sublist n (take (nat (c + 1)) input)" unfolding sublist_def by blast
    moreover from ml have "take (nat (c + 1)) input
        = take (nat (c + 1)) (take (nat (c + 1 + (minlen r - 1))) input)"
      by (simp add: min_def)
    then have "sublist (take (nat (c + 1)) input) (take (nat (c + 1 + (minlen r - 1))) input)"
      by (metis sublist_take)
    ultimately show ?thesis by (meson sublist_order.order_trans)
  qed
  with n(1) have "staged ns ob0 input (r\<lparr>outbuf := ob @ replacement r\<rparr>)
                     (c + 1 + (minlen r - 1)) (c + 1)"
    using c0 c ml by (intro staged_outbuf[OF st]) auto
  with r ml show ?thesis by (auto simp: ob_def)
qed

subsection \<open>The two scans move together\<close>

lemma inStep_skip:
  assumes rel: "inStep x y sunk rA cA dA rB cB dB"
    and dA: "0 \<le> dA" and k: "kA = kB + int (length x)"
    and vA: "obA @ drop (nat (max dA kA)) (x @ y) = outbuf rA @ drop (nat dA) (x @ y)"
    and vB: "obB @ drop (nat (max dB kB)) y = outbuf rB @ drop (nat dB) y"
  shows "inStep x y sunk (rA\<lparr>outbuf := obA\<rparr>) (cA + s) (max dA kA)
           (rB\<lparr>outbuf := obB\<rparr>) (cB + s) (max dB kB)"
  using assms unfolding inStep_def by auto

lemma lockstep_scanStep:
  assumes rel: "inStep x y sunk rA cA dA rB cB dB"
    and sA: "staged ns [] (x @ y) rA cA dA" and sB: "staged ns obk y rB cB dB"
    and cB: "cB < int (length y)"
    and ff: "\<forall>b \<in> set y. b \<noteq> 0xFF" and free: "infixFree ns" and ne: "\<forall>n \<in> set ns. n \<noteq> []"
    and nos: "\<forall>n \<in> set ns. \<not> straddles n x y" and suf: "suffix obk x"
  shows "\<exists>rA' cA' dA' rB' cB' dB'.
           scanStep rA (x @ y) cA dA = Inr (rA', cA', dA') \<and>
           scanStep rB y cB dB = Inr (rB', cB', dB') \<and>
           inStep x y sunk rA' cA' dA' rB' cB' dB' \<and>
           staged ns [] (x @ y) rA' cA' dA' \<and> staged ns obk y rB' cB' dB' \<and> cB < cB'"
proof -
  from rel have tbl: "table rA = table rB" and mn: "minlen rA = minlen rB"
    and mx: "maxlen rA = maxlen rB" and rp: "replacement rA = replacement rB"
    and cA: "cA = cB + int (length x)" and dB: "dB = max 0 (dA - int (length x))"
    and v: "outbuf rA @ drop (nat dA) (x @ y) = sunk @ outbuf rB @ drop (nat dB) y"
    by (auto simp: inStep_def)
  from sA have dA0: "0 \<le> dA" by (simp add: staged_def)
  from sB have compB: "compiled ns rB" and cB0: "0 \<le> cB" and dB0: "0 \<le> dB"
    by (auto simp: staged_def)
  define ch where "ch = y ! nat cB"
  from cB0 cB have iB: "index y cB = Inr ch" by (simp add: index_def ch_def)
  with cA cB0 have iA: "index (x @ y) cA = Inr ch"
    using index_append_right[of cA cB x y] by simp
  from cB0 cB have "ch \<in> set y" by (simp add: ch_def)
  with ff have "uint ch < 255" by (auto intro: byte_below_255)
  with compB obtain ent where tB: "index (table rB) (uint ch) = Inr ent"
    by (simp add: index_def compiled_def)
  with tbl have tA: "index (table rA) (uint ch) = Inr ent" by simp
  from tB have "ent \<in> set (table rB)" by (rule index_in_set)
  with compB have cands: "\<forall>n \<in> set (needles ent). n \<in> set ns \<and> int (length n) \<le> maxlen rB"
    by (auto simp: compiled_def)
  show ?thesis
  proof (cases "skip ent = 0")
    case False
    let ?kA = "min (cA + skip ent - maxlen rA - 1) (int (length (x @ y)))"
    let ?kB = "min (cB + skip ent - maxlen rB - 1) (int (length y))"
    from scanStep_skip_staged[OF sA iA tA False] obtain obA where
      A: "scanStep rA (x @ y) cA dA = Inr (rA\<lparr>outbuf := obA\<rparr>, cA + skip ent, max dA ?kA)"
      "obA @ drop (nat (max dA ?kA)) (x @ y) = outbuf rA @ drop (nat dA) (x @ y)"
      "staged ns [] (x @ y) (rA\<lparr>outbuf := obA\<rparr>) (cA + skip ent) (max dA ?kA)" by blast
    from scanStep_skip_staged[OF sB iB tB False] obtain obB where
      B: "scanStep rB y cB dB = Inr (rB\<lparr>outbuf := obB\<rparr>, cB + skip ent, max dB ?kB)"
      "obB @ drop (nat (max dB ?kB)) y = outbuf rB @ drop (nat dB) y"
      "staged ns obk y (rB\<lparr>outbuf := obB\<rparr>) (cB + skip ent) (max dB ?kB)"
      "cB < cB + skip ent" by blast
    have k: "?kA = ?kB + int (length x)" using cA mx by (simp add: min_def)
    have "inStep x y sunk (rA\<lparr>outbuf := obA\<rparr>) (cA + skip ent) (max dA ?kA)
           (rB\<lparr>outbuf := obB\<rparr>) (cB + skip ent) (max dB ?kB)"
      by (rule inStep_skip[OF rel dA0 k A(2) B(2)])
    with A B show ?thesis by blast
  next
    case True
    from cB0 cB have bB: "0 \<le> cB + 1" "cB + 1 \<le> int (length y)" by auto
    with cA have bA: "0 \<le> cA + 1" "cA + 1 \<le> int (length (x @ y))" by auto
    have fA: "scanStep rA (x @ y) cA dA =
        (case find (matchesAt rA (x @ y) (cA + 1)) (needles ent) of
           None \<Rightarrow> Inr (rA, cA + 1, dA)
         | Some n \<Rightarrow> redactMatch rA (x @ y) (cA + 1) dA (cA + 1 - int (length n)))"
      using iA tA True tryNeedles_find[OF bA] by (simp add: scanStep_def)
    have fB: "scanStep rB y cB dB =
        (case find (matchesAt rB y (cB + 1)) (needles ent) of
           None \<Rightarrow> Inr (rB, cB + 1, dB)
         | Some n \<Rightarrow> redactMatch rB y (cB + 1) dB (cB + 1 - int (length n)))"
      using iB tB True tryNeedles_find[OF bB] by (simp add: scanStep_def)
    have same: "(matchesAt rA (x @ y) (cA + 1) n \<longleftrightarrow> matchesAt rB y (cB + 1) n) \<and>
                (matchesAt rB y (cB + 1) n \<longrightarrow> int (length n) \<le> cB + 1)"
      if "n \<in> set (needles ent)" for n
      using that cands ne mx
      by (intro matchesAt_lockstep[OF sA sB cA cB _ _ _ _ free nos suf]) auto
    then have ff: "find (matchesAt rA (x @ y) (cA + 1)) (needles ent)
                     = find (matchesAt rB y (cB + 1)) (needles ent)"
      by (intro find_cong) auto
    show ?thesis
    proof (cases "find (matchesAt rB y (cB + 1)) (needles ent)")
      case None
      with fA fB ff have "scanStep rA (x @ y) cA dA = Inr (rA, cA + 1, dA)"
        "scanStep rB y cB dB = Inr (rB, cB + 1, dB)" by simp_all
      moreover from rel have "inStep x y sunk rA (cA + 1) dA rB (cB + 1) dB"
        by (simp add: inStep_def)
      moreover have "staged ns [] (x @ y) rA (cA + 1) dA" using staged_mono[OF sA] by simp
      moreover have "staged ns obk y rB (cB + 1) dB" using staged_mono[OF sB] by simp
      ultimately show ?thesis by force
    next
      case (Some n)
      then have nin: "n \<in> set (needles ent)" and mB: "matchesAt rB y (cB + 1) n"
        by (auto simp: find_Some_iff)
      with same have mA: "matchesAt rA (x @ y) (cA + 1) n" and lB: "int (length n) \<le> cB + 1"
        by auto
      from lB cA have lA: "int (length n) \<le> cA + 1" by simp
      from nin cands have nns: "n \<in> set ns" by auto
      from cB cA have cAl: "cA < int (length (x @ y))" by simp
      let ?sA = "cA + 1 - int (length n)" and ?sB = "cB + 1 - int (length n)"
      from redactMatch_staged[OF sA cAl nns lA mA] obtain obA where
        A: "redactMatch rA (x @ y) (cA + 1) dA ?sA
              = Inr (rA\<lparr>outbuf := obA @ replacement rA\<rparr>, cA + 1 + (minlen rA - 1), cA + 1)"
        "obA = outbuf rA @ take (nat (max dA ?sA - dA)) (drop (nat dA) (x @ y))"
        "staged ns [] (x @ y) (rA\<lparr>outbuf := obA @ replacement rA\<rparr>)
           (cA + 1 + (minlen rA - 1)) (cA + 1)" by blast
      from redactMatch_staged[OF sB cB nns lB mB] obtain obB where
        B: "redactMatch rB y (cB + 1) dB ?sB
              = Inr (rB\<lparr>outbuf := obB @ replacement rB\<rparr>, cB + 1 + (minlen rB - 1), cB + 1)"
        "obB = outbuf rB @ take (nat (max dB ?sB - dB)) (drop (nat dB) y)"
        "staged ns obk y (rB\<lparr>outbuf := obB @ replacement rB\<rparr>)
           (cB + 1 + (minlen rB - 1)) (cB + 1)"
        "cB < cB + 1 + (minlen rB - 1)" by blast
      have e: "max dA ?sA = max dB ?sB + int (length x)" using dB cA lB by auto
      have "obA = sunk @ obB"
        unfolding A(2) B(2)
        using virtual_output_cancel[OF v dA0 _ dB0 _ e] by simp
      moreover have "drop (nat (cA + 1)) (x @ y) = drop (nat (cB + 1)) y"
        using cA cB0 by (intro drop_append_right) auto
      ultimately have "inStep x y sunk (rA\<lparr>outbuf := obA @ replacement rA\<rparr>)
          (cA + 1 + (minlen rA - 1)) (cA + 1)
          (rB\<lparr>outbuf := obB @ replacement rB\<rparr>) (cB + 1 + (minlen rB - 1)) (cB + 1)"
        using rel cB0 by (simp add: inStep_def)
      with A B fA fB ff Some show ?thesis by force
    qed
  qed
qed

lemma lockstep_scanLoop:
  assumes rel: "inStep x y sunk rA cA dA rB cB dB"
    and sA: "staged ns [] (x @ y) rA cA dA" and sB: "staged ns obk y rB cB dB"
    and ff: "\<forall>b \<in> set y. b \<noteq> 0xFF" and free: "infixFree ns" and ne: "\<forall>n \<in> set ns. n \<noteq> []"
    and nos: "\<forall>n \<in> set ns. \<not> straddles n x y" and suf: "suffix obk x"
  shows "\<exists>rA' cA' dA' rB' cB' dB'.
           scanLoop rA (x @ y) cA dA = Some (Inr (rA', cA', dA')) \<and>
           scanLoop rB y cB dB = Some (Inr (rB', cB', dB')) \<and>
           inStep x y sunk rA' cA' dA' rB' cB' dB' \<and>
           staged ns [] (x @ y) rA' cA' dA' \<and> staged ns obk y rB' cB' dB' \<and>
           int (length y) \<le> cB'"
  using rel sA sB
proof (induction "nat (int (length y) - cB)" arbitrary: rA cA dA rB cB dB rule: less_induct)
  case less
  from less.prems(1) have cA: "cA = cB + int (length x)" by (simp add: inStep_def)
  show ?case
  proof (cases "cB < int (length y)")
    case False
    with cA have "scanLoop rA (x @ y) cA dA = Some (Inr (rA, cA, dA))"
      "scanLoop rB y cB dB = Some (Inr (rB, cB, dB))"
      by (simp_all add: scanLoop_done)
    with less.prems False show ?thesis by force
  next
    case True
    from lockstep_scanStep[OF less.prems True ff free ne nos suf]
    obtain rA1 cA1 dA1 rB1 cB1 dB1 where
      a: "scanStep rA (x @ y) cA dA = Inr (rA1, cA1, dA1)" and
      b: "scanStep rB y cB dB = Inr (rB1, cB1, dB1)" and
      r: "inStep x y sunk rA1 cA1 dA1 rB1 cB1 dB1" "staged ns [] (x @ y) rA1 cA1 dA1"
         "staged ns obk y rB1 cB1 dB1" and
      lt: "cB < cB1" by blast
    from True lt have "nat (int (length y) - cB1) < nat (int (length y) - cB)" by simp
    from less.hyps[OF this r] obtain rA' cA' dA' rB' cB' dB' where
      f: "scanLoop rA1 (x @ y) cA1 dA1 = Some (Inr (rA', cA', dA'))"
         "scanLoop rB1 y cB1 dB1 = Some (Inr (rB', cB', dB'))"
         "inStep x y sunk rA' cA' dA' rB' cB' dB'"
         "staged ns [] (x @ y) rA' cA' dA'" "staged ns obk y rB' cB' dB'"
         "int (length y) \<le> cB'" by blast
    from True cA have "cA < int (length (x @ y))" by simp
    from scanLoop_step[OF this a] scanLoop_step[OF True b] f show ?thesis by force
  qed
qed

subsection \<open>One more chunk\<close>

lemma staged_append:
  assumes "staged ns ob0 x r c d"
  shows "staged ns ob0 (x @ y) r c d"
proof -
  have "sublist n (take (nat c) (x @ y))" if "sublist n (take (nat c) x)" for n
  proof -
    have "sublist (take (nat c) x) (take (nat c) (x @ y))"
      unfolding take_append by simp
    with that show ?thesis by (meson sublist_order.order_trans)
  qed
  with assms show ?thesis unfolding staged_def by fastforce
qed

lemma straddles_append:
  assumes "straddles n x y"
  shows "straddles n x (y @ z)"
  using assms unfolding straddles_iff
  by (meson prefix_order.order_trans prefix_append prefixI)

lemma tracks_fresh:
  assumes "compiled ns r0" and "0 \<le> offset r0" and "outbuf r0 = []"
  shows "tracks ns r0 [] r0 []"
  unfolding tracks_def
  using assms by (intro exI[of _ r0] exI[of _ "offset r0"] exI[of _ 0])
    (simp add: scanLoop_done staged_def)

lemma tracks_Write:
  assumes tr: "tracks ns r0 x r out" and c0: "compiled ns r0"
    and ff: "\<forall>b \<in> set y. b \<noteq> 0xFF" and free: "infixFree ns" and ne: "\<forall>n \<in> set ns. n \<noteq> []"
    and nos: "\<forall>n \<in> set ns. \<not> straddles n x y"
  shows "\<exists>r' out'. Write r out y = Some (Inr (r', out')) \<and> tracks ns r0 (x @ y) r' out'"
proof -
  from tr obtain rA cA dA where
    a: "scanLoop r0 x (offset r0) 0 = Some (Inr (rA, cA, dA))" and
    sA: "staged ns [] x rA cA dA" and fin: "int (length x) \<le> cA" and
    comp: "compiled ns r" and
    same: "table rA = table r" "minlen rA = minlen r" "maxlen rA = maxlen r"
          "replacement rA = replacement r" and
    off: "offset r = cA - int (length x)" and
    tot: "concat out @ outbuf r = outbuf rA @ drop (nat dA) x" and
    suf: "suffix (outbuf r) x"
    unfolding tracks_def by blast
  from sA have dA: "0 \<le> dA" "dA \<le> int (length x)" by (auto simp: staged_def)
  from scanLoop_append_left[OF a c0, of y]
  have a': "scanLoop r0 (x @ y) (offset r0) 0 = scanLoop rA (x @ y) cA dA" by simp
  have rel: "inStep x y (concat out) rA cA dA r (offset r) 0"
    using same off dA tot by (simp add: inStep_def)
  have sA': "staged ns [] (x @ y) rA cA dA" by (rule staged_append[OF sA])
  have sB: "staged ns (outbuf r) y r (offset r) 0"
    using comp off fin by (simp add: staged_def)
  from lockstep_scanLoop[OF rel sA' sB ff free ne nos suf]
  obtain rA' cA' dA' rB' cB' dB' where
    fA: "scanLoop rA (x @ y) cA dA = Some (Inr (rA', cA', dA'))" and
    fB: "scanLoop r y (offset r) 0 = Some (Inr (rB', cB', dB'))" and
    rel': "inStep x y (concat out) rA' cA' dA' rB' cB' dB'" and
    sA'': "staged ns [] (x @ y) rA' cA' dA'" and sB': "staged ns (outbuf r) y rB' cB' dB'" and
    finB: "int (length y) \<le> cB'" by blast
  from rel' have same': "table rA' = table rB'" "minlen rA' = minlen rB'"
    "maxlen rA' = maxlen rB'" "replacement rA' = replacement rB'" and
    cA': "cA' = cB' + int (length x)" and
    v: "outbuf rA' @ drop (nat dA') (x @ y) = concat out @ outbuf rB' @ drop (nat dB') y"
    by (auto simp: inStep_def)
  from sB' have compB: "compiled ns rB'" and dB: "0 \<le> dB'" "dB' \<le> int (length y)"
    and z: "dB' = 0 \<longrightarrow> outbuf rB' = outbuf r" by (auto simp: staged_def)
  from lineFlush_returns[of dB' dB' y "outbuf rB'"] dB obtain d2 where
    l: "lineFlush y dB' dB' (outbuf rB') =
          Inr (d2, outbuf rB' @ take (nat (d2 - dB')) (drop (nat dB') y))"
    and d2: "dB' \<le> d2" "d2 \<le> int (length y)" by auto
  define ob2 where "ob2 = outbuf rB' @ take (nat (d2 - dB')) (drop (nat dB') y)"
  have keep: "ob2 @ drop (nat d2) y = outbuf rB' @ drop (nat dB') y"
    using stage_keeps[OF dB(1) d2(1), of y] by (simp add: ob2_def)
  from fB l have cf: "confirm r y = Some (Inr (rB'\<lparr>outbuf := ob2\<rparr>, cB', d2))"
    by (simp add: confirm_def ob2_def)
  define r' where "r' = (if d2 > 0
      then rB'\<lparr>outbuf := drop (nat d2) y, offset := cB' - int (length y)\<rparr>
      else rB'\<lparr>outbuf := ob2 @ y, offset := cB' - int (length y)\<rparr>)"
  define out' where "out' = (if d2 > 0 then out @ [ob2] else out)"
  have w: "Write r out y = Some (Inr (r', out'))"
  proof (cases "d2 > 0")
    case True
    with d2 have "sliceOf y d2 (int (length y)) = Inr (drop (nat d2) y)"
      by (simp add: sliceOf_def)
    with True cf show ?thesis by (simp add: Write_def pushDown_def r'_def out'_def)
  next
    case False
    with cf show ?thesis by (simp add: Write_def pushDown_def r'_def out'_def)
  qed
  have tot': "concat out' @ outbuf r' = outbuf rA' @ drop (nat dA') (x @ y)"
  proof (cases "d2 > 0")
    case True
    then have "concat out' @ outbuf r' = concat out @ ob2 @ drop (nat d2) y"
      by (simp add: r'_def out'_def)
    with keep v show ?thesis by simp
  next
    case False
    with dB d2 have "d2 = 0" "dB' = 0" by auto
    with keep have "ob2 @ y = outbuf rB' @ drop (nat dB') y" by simp
    with False v show ?thesis by (simp add: r'_def out'_def)
  qed
  have suf': "suffix (outbuf r') (x @ y)"
  proof (cases "d2 > 0")
    case True
    then have "outbuf r' = drop (nat d2) y" by (simp add: r'_def)
    then show ?thesis by (metis suffix_drop suffix_appendI)
  next
    case False
    with dB d2 have e: "d2 = 0" "dB' = 0" by auto
    with z have "ob2 = outbuf r" by (simp add: ob2_def)
    with False have "outbuf r' = outbuf r @ y" by (simp add: r'_def)
    with suf show ?thesis by (simp add: suffix_def)
  qed
  have "compiled ns r'" using compB by (simp add: r'_def compiled_def)
  moreover have "offset r' = cA' - int (length (x @ y))" using cA' by (simp add: r'_def)
  moreover have "table rA' = table r'" "minlen rA' = minlen r'" "maxlen rA' = maxlen r'"
    "replacement rA' = replacement r'" using same' by (simp_all add: r'_def)
  moreover from finB cA' have "int (length (x @ y)) \<le> cA'" by simp
  ultimately have "tracks ns r0 (x @ y) r' out'"
    unfolding tracks_def using a' fA sA'' tot' suf' by (intro exI[of _ rA'] exI[of _ cA'] exI[of _ dA']) simp
  with w show ?thesis by blast
qed

subsection \<open>All the chunks\<close>

lemma tracks_writeChunks:
  assumes "tracks ns r0 x r out" and c0: "compiled ns r0"
    and "\<forall>b \<in> set (concat chunks). b \<noteq> 0xFF"
    and free: "infixFree ns" and ne: "\<forall>n \<in> set ns. n \<noteq> []"
    and "noStraddle ns x chunks"
  shows "\<exists>r' out'. writeChunks r out chunks = Some (Inr (r', out')) \<and>
           tracks ns r0 (x @ concat chunks) r' out'"
  using assms(1,3,6)
proof (induction chunks arbitrary: x r out)
  case Nil
  then show ?case by simp
next
  case (Cons chunk chunks)
  from Cons.prems(2) have f1: "\<forall>b \<in> set chunk. b \<noteq> 0xFF"
    and f2: "\<forall>b \<in> set (concat chunks). b \<noteq> 0xFF" by auto
  from Cons.prems(3) have n1: "\<forall>n \<in> set ns. \<not> straddles n x chunk"
    and n2: "noStraddle ns (x @ chunk) chunks"
    using straddles_append[of _ x chunk "concat chunks"] by auto
  from tracks_Write[OF Cons.prems(1) c0 f1 free ne n1] obtain r1 out1 where
    w: "Write r out chunk = Some (Inr (r1, out1))" and t: "tracks ns r0 (x @ chunk) r1 out1"
    by blast
  from Cons.IH[OF t f2 n2] w show ?case by simp
qed

lemma tracks_output:
  assumes "tracks ns r0 x r out" and "tracks ns r0 x r' out'"
  shows "concat out @ outbuf r = concat out' @ outbuf r'"
  using assms unfolding tracks_def by auto

lemma not_straddles_Nil: "\<not> straddles n [] y"
  unfolding straddles_iff by auto

lemma redactStream_tracks:
  assumes "NewRedactor repl ns = Inr r0" and "compiled ns r0" and "tracks ns r0 [] r0 []"
    and "\<forall>b \<in> set (concat chunks). b \<noteq> 0xFF"
    and "infixFree ns" and "\<forall>n \<in> set ns. n \<noteq> []" and "noStraddle ns [] chunks"
  shows "\<exists>r out. tracks ns r0 (concat chunks) r out \<and>
           redactStream repl ns chunks = Some (Inr (concat out @ outbuf r))"
proof -
  from tracks_writeChunks[OF assms(3,2,4,5,6,7)] obtain r out where
    w: "writeChunks r0 [] chunks = Some (Inr (r, out))" and
    t: "tracks ns r0 (concat chunks) r out" by auto
  from w assms(1) have "redactStream repl ns chunks = Some (Inr (concat out @ outbuf r))"
    by (simp add: redactStream_def writeStream_def written_def thenSync_def callSync_def Sync_def)
  with t show ?thesis by blast
qed

section \<open>Behaviour at concrete inputs\<close>

text \<open>
  C1 (a needle split across two \<^verbatim>\<open>Write\<close> calls is still redacted). The scenario of the
  specification: needles \<^verbatim>\<open>hunter2\<close> and \<^verbatim>\<open>s3cr3t\<close>, the input cut after \<^verbatim>\<open>hun\<close>.
  The candidate that crosses the boundary is built from \<^verbatim>\<open>outbuf[-startSubstr-1:]\<close>,
  here the four bytes \<^verbatim>\<open>" hun"\<close> instead of the three bytes \<^verbatim>\<open>"hun"\<close>, so it is one byte
  too long and the comparison fails: \<^verbatim>\<open>hunter2\<close> reaches the writer.
\<close>

theorem boundary_split_leaks:
  "redactStream (bytes ''[REDACTED]'') [bytes ''hunter2'', bytes ''s3cr3t'']
     [bytes ''password is hun'', bytes ''ter2 and key is s3cr3t'' @ [0x0A]]
   = Some (Inr (bytes ''password is hunter2 and key is [REDACTED]'' @ [0x0A]))"
  by code_simp

text \<open>The same input in one chunk, for comparison: both needles are replaced.\<close>

lemma single_chunk_scenario:
  "redactStream (bytes ''[REDACTED]'') [bytes ''hunter2'', bytes ''s3cr3t'']
     [bytes ''password is hunter2 and key is s3cr3t'' @ [0x0A]]
   = Some (Inr (bytes ''password is [REDACTED] and key is [REDACTED]'' @ [0x0A]))"
  by code_simp

text \<open>
  C3 (the skip table has an entry for each of the 256 byte values, so the lookup in
  \<^verbatim>\<open>Write\<close> never fails). The array has 255 elements, indices 0 to 254: a chunk whose
  scanned byte is \<^verbatim>\<open>0xFF\<close> makes \<^verbatim>\<open>redactor.table[ch]\<close> panic.
\<close>

theorem byte_255_panics:
  "redactStream (bytes ''R'') [bytes ''a''] [[0xFF]] = Some (Inl IndexOutOfRange)"
  by code_simp

text \<open>
  C4 (with an empty needle set the filter passes everything through). With no needle,
  \<open>minNeedleLen\<close> stays 0 and \<^verbatim>\<open>NewRedactor\<close> sets \<open>offset\<close> to \<open>-1\<close>; the first
  \<^verbatim>\<open>Write\<close> starts its cursor there, enters the loop (\<open>-1 < len(input)\<close> for every chunk,
  the empty one too) and panics at \<^verbatim>\<open>input[cursor]\<close>.
\<close>

theorem empty_needle_set_panics:
  "redactStream repl [] (chunk # rest) = Some (Inl IndexOutOfRange)"
  by (simp add: redactStream_def writeStream_def NewRedactor_def Write_def confirm_def
      scanLoop_negative_cursor written_def thenSync_def)

text \<open>
  C5 (\<^verbatim>\<open>Sync\<close> clears the retained buffer, so a second \<^verbatim>\<open>Sync\<close> writes nothing). With
  needle \<^verbatim>\<open>ab\<close>, \<^verbatim>\<open>Write("a")\<close> retains \<^verbatim>\<open>a\<close>; each of two \<^verbatim>\<open>Sync\<close> calls then hands
  \<^verbatim>\<open>a\<close> to the writer, because the reset happened on the receiver's copy.
\<close>

theorem second_Sync_writes_tail_again:
  "written (thenSync (thenSync (writeStream [] [bytes ''ab''] [bytes ''a''])))
   = Some (Inr [bytes ''a'', bytes ''a''])"
  by code_simp

text \<open>
  C7 (input \<open>A + needle + B\<close> comes out as \<open>A + replacement + B\<close>). Two inputs at which
  it does not.

  The needle \<^verbatim>\<open>caf\xc3\xa9\<close> (\<^verbatim>\<open>caf\<close> followed by U+00E9 in UTF-8) ends in a two-byte code point.
  \<^verbatim>\<open>NewRedactor\<close> ranges over the code points of the needle, so it never reaches
  \<^verbatim>\<open>skip == 0\<close> (the last code point starts at byte 3 of 5) and registers the needle
  nowhere; \<^verbatim>\<open>Write\<close> looks bytes up and finds no candidate. The needle passes through.

  With needles \<^verbatim>\<open>a\<close> and \<^verbatim>\<open>RRab\<close> and replacement \<^verbatim>\<open>RRR\<close>, the input \<^verbatim>\<open>ab\<close> is
  \<open>A = ""\<close>, needle \<^verbatim>\<open>a\<close>, \<open>B = "b"\<close>, and \<^verbatim>\<open>RRab\<close> does not occur in it. After \<^verbatim>\<open>a\<close> is
  replaced, \<^verbatim>\<open>outbuf\<close> holds \<^verbatim>\<open>RRR\<close>; at \<^verbatim>\<open>b\<close> the candidate for \<^verbatim>\<open>RRab\<close> is taken from
  those replacement bytes and equals the needle, so \<^verbatim>\<open>b\<close> is redacted as well.
\<close>

theorem exact_substitution_fails:
  "redactStream (bytes ''[REDACTED]'') [bytes ''caf'' @ [0xC3, 0xA9]]
     [bytes ''my '' @ bytes ''caf'' @ [0xC3, 0xA9] @ bytes '' bar'']
   = Some (Inr (bytes ''my '' @ bytes ''caf'' @ [0xC3, 0xA9] @ bytes '' bar'')) \<and>
   redactStream (bytes ''RRR'') [bytes ''a'', bytes ''RRab''] [bytes ''ab'']
   = Some (Inr (bytes ''RRRR''))"
  by code_simp

text \<open>
  C8 (clean input comes out unchanged). The one-byte input \<^verbatim>\<open>0xFF\<close> contains no
  occurrence of the needle \<^verbatim>\<open>hunter2\<close>; the run panics at the table lookup and the
  writer receives nothing.
\<close>

theorem clean_input_byte_255_panics:
  "redactStream (bytes ''[REDACTED]'') [bytes ''hunter2''] [bytes ''build '' @ [0xFF] @ bytes '' done'']
   = Some (Inl IndexOutOfRange)"
  by code_simp

section \<open>The effect of one \<^verbatim>\<open>Write\<close> on the writer and on the buffer\<close>

text \<open>
  C10. A \<^verbatim>\<open>Write\<close> call that returns has handed the writer at most one slice. When
  the two loops end with \<open>doneTo = 0\<close> (no byte of the chunk was confirmed: no prefix
  confirmed by a skip, no match, no line ending) the writer has received nothing and the
  whole chunk has been appended to \<open>outbuf\<close>; when they end with \<open>doneTo > 0\<close> the
  writer has received exactly one slice, the staged buffer.
\<close>

theorem Write_at_most_one_sink_write:
  assumes "confirm redactor input = Some (Inr (r1, cursor, doneTo))"
    and "Write redactor out input = Some (Inr (r', out'))"
  shows "(out' = out \<or> out' = out @ [outbuf r1]) \<and>
         (doneTo = 0 \<longrightarrow> out' = out \<and> outbuf r' = outbuf redactor @ input) \<and>
         (doneTo \<noteq> 0 \<longrightarrow> out' = out @ [outbuf r1])"
proof -
  from assms have p: "pushDown r1 out input cursor doneTo = Inr (r', out')"
    by (simp add: Write_def)
  from confirm_nothing_staged[OF assms(1)] p show ?thesis
    by (auto simp: pushDown_def bindE_eq_Inr split: if_splits)
qed

theorem Write_at_most_one_sink_write_witness:
  "\<exists>r0 r1 cursor r' out'.
     NewRedactor (bytes ''R'') [bytes ''ab''] = Inr r0 \<and>
     confirm r0 (bytes ''bbbb'') = Some (Inr (r1, cursor, 0)) \<and>
     Write r0 [bytes ''x''] (bytes ''bbbb'') = Some (Inr (r', out')) \<and>
     out' = [bytes ''x''] \<and> outbuf r' = outbuf r0 @ bytes ''bbbb''"
proof -
  define r0 where "r0 = projr (NewRedactor (bytes ''R'') [bytes ''ab''])"
  have n: "NewRedactor (bytes ''R'') [bytes ''ab''] = Inr r0"
    unfolding r0_def by code_simp
  have "map_option (map_sum id (\<lambda>st. snd (snd st))) (confirm r0 (bytes ''bbbb'')) = Some (Inr 0)"
    unfolding r0_def by code_simp
  then obtain r1 cursor where c: "confirm r0 (bytes ''bbbb'') = Some (Inr (r1, cursor, 0))"
    by (cases "confirm r0 (bytes ''bbbb'')") (auto simp: map_sum_def split: sum.splits)
  have "map_option isl (Write r0 [bytes ''x''] (bytes ''bbbb'')) = Some False"
    unfolding r0_def by code_simp
  then obtain r' out' where w: "Write r0 [bytes ''x''] (bytes ''bbbb'') = Some (Inr (r', out'))"
    using returned_Inr by fastforce
  from Write_at_most_one_sink_write[OF c w] n c w show ?thesis by blast
qed

text \<open>
  C6, as stated (after every \<^verbatim>\<open>Write\<close> the retained tail has at most \<open>maxlen - 1\<close>
  bytes), fails. A call that confirms nothing appends its whole chunk to the buffer
  (``If nothing was done, just add what we got to the buffer''), and \<open>doneTo\<close> only ever
  counts bytes of the current chunk. With the needle \<^verbatim>\<open>abc\<close> (\<open>maxlen = 3\<close>) and three
  chunks of one byte \<^verbatim>\<open>x\<close>, no call confirms anything and three bytes are retained.
\<close>

theorem retained_tail_exceeds_maxlen:
  "retained (writeStream [] [bytes ''abc''] [bytes ''x'', bytes ''x'', bytes ''x''])
     = Some (Inr (bytes ''xxx'')) \<and>
   longest (writeStream [] [bytes ''abc''] [bytes ''x'', bytes ''x'', bytes ''x''])
     = Some (Inr 3)"
  by code_simp

text \<open>
  The same happens within one chunk when the scan stands on bytes that end a needle but
  no candidate matches: that branch confirms nothing, unlike the skip branch. With the
  needle \<^verbatim>\<open>ab\<close> the chunk \<^verbatim>\<open>bbbb\<close> is retained whole.
\<close>

lemma retained_tail_without_match:
  "retained (writeStream [] [bytes ''ab''] [bytes ''bbbb'']) = Some (Inr (bytes ''bbbb'')) \<and>
   longest (writeStream [] [bytes ''ab''] [bytes ''bbbb'']) = Some (Inr 2)"
  by code_simp

text \<open>
  C6, amended. After a \<^verbatim>\<open>Write\<close> call that returns, the buffer is the unconfirmed rest
  \<^verbatim>\<open>input[doneTo:]\<close> of the chunk when the loops confirmed at least one byte, and otherwise
  the buffer of before followed by the whole chunk. So it is never longer than the
  buffer of before plus the chunk.
\<close>

theorem Write_retained_buffer:
  assumes "confirm redactor input = Some (Inr (r1, cursor, doneTo))"
    and "Write redactor out input = Some (Inr (r', out'))"
  shows "0 \<le> doneTo \<and> doneTo \<le> int (length input) \<and>
         outbuf r' = (if doneTo = 0 then outbuf redactor @ input else drop (nat doneTo) input) \<and>
         length (outbuf r') \<le> length (outbuf redactor) + length input"
proof -
  from assms have p: "pushDown r1 out input cursor doneTo = Inr (r', out')"
    by (simp add: Write_def)
  from confirm_nothing_staged[OF assms(1)] p show ?thesis
    by (auto simp: pushDown_def bindE_eq_Inr sliceOf_eq_Inr split: if_splits)
qed

theorem Write_retained_buffer_witness:
  "\<exists>r0 r1 cursor r' out'.
     NewRedactor (bytes ''R'') [bytes ''abc''] = Inr r0 \<and>
     confirm r0 (bytes ''yyyyyyyy'') = Some (Inr (r1, cursor, 4)) \<and>
     Write r0 [] (bytes ''yyyyyyyy'') = Some (Inr (r', out')) \<and>
     outbuf r' = bytes ''yyyy''"
proof -
  define r0 where "r0 = projr (NewRedactor (bytes ''R'') [bytes ''abc''])"
  have n: "NewRedactor (bytes ''R'') [bytes ''abc''] = Inr r0"
    unfolding r0_def by code_simp
  have "map_option (map_sum id (\<lambda>st. snd (snd st))) (confirm r0 (bytes ''yyyyyyyy''))
          = Some (Inr 4)"
    unfolding r0_def by code_simp
  then obtain r1 cursor where c: "confirm r0 (bytes ''yyyyyyyy'') = Some (Inr (r1, cursor, 4))"
    by (cases "confirm r0 (bytes ''yyyyyyyy'')") (auto simp: map_sum_def split: sum.splits)
  have "map_option isl (Write r0 [] (bytes ''yyyyyyyy'')) = Some False"
    unfolding r0_def by code_simp
  then obtain r' out' where w: "Write r0 [] (bytes ''yyyyyyyy'') = Some (Inr (r', out'))"
    using returned_Inr by fastforce
  have "drop (nat 4) (bytes ''yyyyyyyy'') = bytes ''yyyy''" by (simp add: bytes_def)
  with Write_retained_buffer[OF c w] n c w show ?thesis by auto
qed

section \<open>Candidate order\<close>

subsection \<open>What the loop over the candidates does\<close>

text \<open>
  The body of \<^verbatim>\<open>if bytes.Equal(needle, candidate)\<close>, spelt out for a needle that equals
  its candidate: the bytes of the chunk before the needle that were not yet confirmed
  are copied (or the bytes of the needle that the buffer holds are cut off), the
  replacement is appended, \<open>doneTo\<close> is the position behind the needle and the cursor is
  \<open>minlen - 1\<close> further.
\<close>

lemma redactMatch_effect:
  assumes "matchesAt r input c n" and "0 \<le> d" and "0 \<le> c" and "c \<le> int (length input)"
  shows "redactMatch r input c d (c - int (length n)) =
           Inr (r\<lparr>outbuf :=
                    (if c - int (length n) < 0
                     then take (nat (int (length (outbuf r)) + (c - int (length n)))) (outbuf r)
                     else if c - int (length n) > d
                     then outbuf r @ take (nat (c - int (length n) - d)) (drop (nat d) input)
                     else outbuf r) @ replacement r\<rparr>,
                c + (minlen r - 1), c)"
proof (cases "c - int (length n) < 0")
  case True
  with assms(1) have "- (c - int (length n)) \<le> int (length (outbuf r))"
    by (auto simp: matchesAt_def candidateAt_def bindE_eq_Inr split: if_splits)
  with True show ?thesis by (simp add: redactMatch_def sliceOf_def)
next
  case False
  with assms(2,3,4) show ?thesis by (simp add: redactMatch_def sliceOf_def)
qed

text \<open>
  Let the Redactor be built from the needles \<open>ns\<close>, and let the scan stand on a byte
  \<open>ch\<close> whose table entry has \<^verbatim>\<open>skip == 0\<close>. The candidates of that entry are the
  needles that \<^verbatim>\<open>NewRedactor\<close> registered there, in the order in which they were
  supplied: the needles that end in \<open>ch\<close> when \<open>ch\<close> is an ASCII byte, and none
  otherwise. The iteration replaces the first of them that equals its candidate, and no
  candidate behind it is looked at; when none does, it only moves the cursor past the
  byte.
\<close>

lemma first_candidate_redacted:
  assumes "NewRedactor repl ns = Inr r0"
    and "table redactor = table r0"
    and "0 \<le> cursor" and "cursor < int (length input)" and "0 \<le> doneTo"
    and "input ! nat cursor = ch" and "ch \<noteq> 0xFF"
    and "skip (table redactor ! unat ch) = 0"
  shows "needles (table redactor ! unat ch)
           = filter (\<lambda>n. n \<noteq> [] \<and> last n = ch \<and> ch < 0x80) ns"
    and "scanStep redactor input cursor doneTo =
           (case find (matchesAt redactor input (cursor + 1))
                   (filter (\<lambda>n. n \<noteq> [] \<and> last n = ch \<and> ch < 0x80) ns) of
              None \<Rightarrow> Inr (redactor, cursor + 1, doneTo)
            | Some n \<Rightarrow>
                Inr (redactor\<lparr>outbuf :=
                       (if cursor + 1 - int (length n) < 0
                        then take (nat (int (length (outbuf redactor)) + (cursor + 1 - int (length n))))
                               (outbuf redactor)
                        else if cursor + 1 - int (length n) > doneTo
                        then outbuf redactor @
                               take (nat (cursor + 1 - int (length n) - doneTo)) (drop (nat doneTo) input)
                        else outbuf redactor) @ replacement redactor\<rparr>,
                     cursor + 1 + (minlen redactor - 1), cursor + 1))"
proof -
  from byte_below_255[OF assms(7)] have u: "uint ch < 255" .
  with uint_nat[of ch] have k: "unat ch < 255" by linarith
  have u': "nat (uint ch) = unat ch" by (rule unat_eq_nat_uint [symmetric])
  have e: "(unat (last n) = unat ch) = (last n = ch)" for n :: "byte list"
    by (rule word_unat_eq_iff [symmetric])
  have "registersAt n (unat ch) \<longleftrightarrow> n \<noteq> [] \<and> last n = ch \<and> ch < 0x80" for n
    unfolding registersAt_iff[OF k] e by auto
  with NewRedactor_facts[OF assms(1)] assms(2) k have
    len: "length (table redactor) = 255" and
    cands: "needles (table redactor ! unat ch)
              = filter (\<lambda>n. n \<noteq> [] \<and> last n = ch \<and> ch < 0x80) ns"
    by auto
  from cands show "needles (table redactor ! unat ch)
           = filter (\<lambda>n. n \<noteq> [] \<and> last n = ch \<and> ch < 0x80) ns" .
  from assms(3,4,6) have i: "index input cursor = Inr ch" by (simp add: index_def)
  from u u' len have t: "index (table redactor) (uint ch) = Inr (table redactor ! unat ch)"
    by (simp add: index_def)
  have c1: "0 \<le> cursor + 1" "cursor + 1 \<le> int (length input)" using assms(3,4) by auto
  have step: "scanStep redactor input cursor doneTo =
          tryNeedles redactor input (cursor + 1) doneTo (needles (table redactor ! unat ch))"
    using i t assms(8) by (simp add: scanStep_def)
  show "scanStep redactor input cursor doneTo =
           (case find (matchesAt redactor input (cursor + 1))
                   (filter (\<lambda>n. n \<noteq> [] \<and> last n = ch \<and> ch < 0x80) ns) of
              None \<Rightarrow> Inr (redactor, cursor + 1, doneTo)
            | Some n \<Rightarrow>
                Inr (redactor\<lparr>outbuf :=
                       (if cursor + 1 - int (length n) < 0
                        then take (nat (int (length (outbuf redactor)) + (cursor + 1 - int (length n))))
                               (outbuf redactor)
                        else if cursor + 1 - int (length n) > doneTo
                        then outbuf redactor @
                               take (nat (cursor + 1 - int (length n) - doneTo)) (drop (nat doneTo) input)
                        else outbuf redactor) @ replacement redactor\<rparr>,
                     cursor + 1 + (minlen redactor - 1), cursor + 1))"
  proof (cases "find (matchesAt redactor input (cursor + 1)) (needles (table redactor ! unat ch))")
    case None
    with step tryNeedles_find[OF c1, of redactor doneTo "needles (table redactor ! unat ch)"] cands
    show ?thesis by simp
  next
    case (Some n)
    then have "matchesAt redactor input (cursor + 1) n" by (auto simp: find_Some_iff)
    from redactMatch_effect[OF this assms(5) c1] Some step
      tryNeedles_find[OF c1, of redactor doneTo "needles (table redactor ! unat ch)"] cands
    show ?thesis by simp
  qed
qed

text \<open>
  The needles \<^verbatim>\<open>abcd\<close> and \<^verbatim>\<open>d\<close>, supplied in this order, are both registered on the
  byte \<^verbatim>\<open>d\<close>, in this order, and in the single chunk \<^verbatim>\<open>xxabcd\<close> the first of them is the
  one that is replaced.
\<close>

lemma both_registered_in_supply_order:
  "map_sum id (\<lambda>r. (skip (table r ! unat (0x64 :: byte)), needles (table r ! unat (0x64 :: byte))))
     (NewRedactor (bytes ''R'') [bytes ''abcd'', bytes ''d''])
   = Inr (0, [bytes ''abcd'', bytes ''d''])"
  by code_simp

lemma first_supplied_wins_in_one_chunk:
  "redactStream (bytes ''R'') [bytes ''abcd'', bytes ''d''] [bytes ''xxabcd'']
   = Some (Inr (bytes ''xxR''))"
  by code_simp

subsection \<open>The first supplied needle that occurs is not always the one replaced\<close>

text \<open>
  C9 (when several needles end in the same byte and more than one of them matches at a
  scan position, the needle that is redacted is the first matching one in the order of
  supply). Two runs in which it is not.

  Needles \<^verbatim>\<open>abcd\<close> and \<^verbatim>\<open>d\<close>, in this order, and the stream \<^verbatim>\<open>xxabcd\<close> written as
  \<^verbatim>\<open>xxab\<close> and \<^verbatim>\<open>cd\<close>. Both needles end at the last byte of the stream. The second
  \<^verbatim>\<open>Write\<close> looks at \<^verbatim>\<open>abcd\<close> first, but builds its candidate from
  \<^verbatim>\<open>outbuf[-startSubstr-1:]\<close>, the bytes \<^verbatim>\<open>xab\<close> instead of \<^verbatim>\<open>ab\<close>, so the comparison
  fails, the loop goes on to \<^verbatim>\<open>d\<close>, and the needle that was supplied second is the one
  replaced: the writer receives \<^verbatim>\<open>xxabcR\<close>.

  Needles \<^verbatim>\<open>\xc3\xa9\<close> and \<^verbatim>\<open>x\xc3\xa9\<close> (U+00E9 in UTF-8, alone and after \<^verbatim>\<open>x\<close>), and the
  single chunk \<^verbatim>\<open>x\xc3\xa9\<close>. Both needles end in the byte \<^verbatim>\<open>0xA9\<close> and both occur at the end
  of the chunk. \<^verbatim>\<open>NewRedactor\<close> ranges over the code points of a needle, not over its
  bytes, so neither needle is a candidate of any table entry, and none is replaced.
\<close>

theorem first_supplied_match_not_redacted:
  "redactStream (bytes ''R'') [bytes ''abcd'', bytes ''d''] [bytes ''xxab'', bytes ''cd'']
     = Some (Inr (bytes ''xxabcR'')) \<and>
   redactStream (bytes ''R'') [[0xC3, 0xA9], [0x78, 0xC3, 0xA9]] [[0x78, 0xC3, 0xA9]]
     = Some (Inr [0x78, 0xC3, 0xA9])"
  by code_simp

section \<open>Chunking\<close>

text \<open>
  C2, as stated (every chunking of an input gives the output of the single chunk),
  fails. The needle \<^verbatim>\<open>a\nb\<close> is replaced when the input \<^verbatim>\<open>a\nb\<close> arrives in one chunk.
  Cut after the line ending, the first \<^verbatim>\<open>Write\<close> pushes \<^verbatim>\<open>a\n\<close> through to the writer at
  once, nothing is retained, and the second chunk \<^verbatim>\<open>b\<close> finds no tail to complete the
  needle with: the input comes out unredacted. The source says so in its comment on the
  line-ending loop.
\<close>

theorem chunking_changes_output:
  "redactStream (bytes ''R'') [[0x61, 0x0A, 0x62]] [[0x61, 0x0A, 0x62]] = Some (Inr (bytes ''R'')) \<and>
   redactStream (bytes ''R'') [[0x61, 0x0A, 0x62]] [[0x61, 0x0A], [0x62]]
     = Some (Inr [0x61, 0x0A, 0x62])"
  by code_simp

text \<open>
  C2, amended. Take a non-empty set of non-empty needles that \<^verbatim>\<open>NewRedactor\<close> accepts and
  in which no needle occurs inside a different one, and an input without the byte
  \<^verbatim>\<open>0xFF\<close>. For every chunking of the input in which no occurrence of a needle lies across
  the start of a chunk, one \<^verbatim>\<open>Write\<close> per chunk followed by one \<^verbatim>\<open>Sync\<close> hands the writer
  the same bytes as one \<^verbatim>\<open>Write\<close> of the whole input followed by one \<^verbatim>\<open>Sync\<close>, and neither
  run panics.
\<close>

theorem chunking_invariance:
  assumes "NewRedactor repl ns = Inr r0" and "ns \<noteq> []" and "\<forall>n \<in> set ns. n \<noteq> []"
    and "infixFree ns" and "\<forall>b \<in> set (concat chunks). b \<noteq> 0xFF"
    and "noStraddle ns [] chunks"
  shows "redactStream repl ns chunks = redactStream repl ns [concat chunks] \<and>
         (\<exists>output. redactStream repl ns chunks = Some (Inr output))"
proof -
  from NewRedactor_compiled[OF assms(1,2,3)] have c: "compiled ns r0"
    and f: "tracks ns r0 [] r0 []" by (auto intro: tracks_fresh)
  from redactStream_tracks[OF assms(1) c f assms(5,4,3,6)] obtain r out where
    a: "tracks ns r0 (concat chunks) r out"
       "redactStream repl ns chunks = Some (Inr (concat out @ outbuf r))" by blast
  have "noStraddle ns [] [concat chunks]" by (simp add: not_straddles_Nil)
  moreover from assms(5) have "\<forall>b \<in> set (concat [concat chunks]). b \<noteq> 0xFF" by simp
  ultimately obtain r' out' where
    b: "tracks ns r0 (concat [concat chunks]) r' out'"
       "redactStream repl ns [concat chunks] = Some (Inr (concat out' @ outbuf r'))"
    using redactStream_tracks[OF assms(1) c f _ assms(4,3), of "[concat chunks]"] by blast
  from a(1) b(1) have "concat out @ outbuf r = concat out' @ outbuf r'"
    by (intro tracks_output) simp_all
  with a(2) b(2) show ?thesis by simp
qed

theorem chunking_invariance_witness:
  "\<exists>r0. NewRedactor (bytes ''[REDACTED]'') [bytes ''hunter2'', bytes ''s3cr3t''] = Inr r0 \<and>
     infixFree [bytes ''hunter2'', bytes ''s3cr3t''] \<and>
     noStraddle [bytes ''hunter2'', bytes ''s3cr3t''] []
       [bytes ''password is '', bytes ''hunter2 and key is s3c'', [], bytes ''r3 s3cr3t'' @ [0x0A]] \<and>
     redactStream (bytes ''[REDACTED]'') [bytes ''hunter2'', bytes ''s3cr3t'']
        [bytes ''password is '', bytes ''hunter2 and key is s3c'', [], bytes ''r3 s3cr3t'' @ [0x0A]]
       = redactStream (bytes ''[REDACTED]'') [bytes ''hunter2'', bytes ''s3cr3t'']
           [concat [bytes ''password is '', bytes ''hunter2 and key is s3c'', [],
                    bytes ''r3 s3cr3t'' @ [0x0A]]] \<and>
     redactStream (bytes ''[REDACTED]'') [bytes ''hunter2'', bytes ''s3cr3t'']
        [bytes ''password is '', bytes ''hunter2 and key is s3c'', [], bytes ''r3 s3cr3t'' @ [0x0A]]
       = Some (Inr (bytes ''password is [REDACTED] and key is s3cr3 [REDACTED]'' @ [0x0A]))"
proof -
  define r0 where "r0 = projr (NewRedactor (bytes ''[REDACTED]'') [bytes ''hunter2'', bytes ''s3cr3t''])"
  have n: "NewRedactor (bytes ''[REDACTED]'') [bytes ''hunter2'', bytes ''s3cr3t''] = Inr r0"
    unfolding r0_def by code_simp
  have e: "[bytes ''hunter2'', bytes ''s3cr3t''] \<noteq> []" by simp
  have ne: "\<forall>n \<in> set [bytes ''hunter2'', bytes ''s3cr3t'']. n \<noteq> []" by (simp add: bytes_def)
  have i: "infixFree [bytes ''hunter2'', bytes ''s3cr3t'']" by code_simp
  have f: "\<forall>b \<in> set (concat [bytes ''password is '', bytes ''hunter2 and key is s3c'', [],
                                bytes ''r3 s3cr3t'' @ [0x0A]]). b \<noteq> 0xFF"
    by code_simp
  have s: "noStraddle [bytes ''hunter2'', bytes ''s3cr3t''] []
       [bytes ''password is '', bytes ''hunter2 and key is s3c'', [], bytes ''r3 s3cr3t'' @ [0x0A]]"
    by code_simp
  have v: "redactStream (bytes ''[REDACTED]'') [bytes ''hunter2'', bytes ''s3cr3t'']
        [bytes ''password is '', bytes ''hunter2 and key is s3c'', [], bytes ''r3 s3cr3t'' @ [0x0A]]
       = Some (Inr (bytes ''password is [REDACTED] and key is s3cr3 [REDACTED]'' @ [0x0A]))"
    by code_simp
  from chunking_invariance[OF n e ne i f s] n i s v show ?thesis by blast
qed


end
